theory Spec2Isabelle
  imports Complex_Main
begin

section \<open>Event Hubs partition load balancers\<close>

text \<open>
  A shallow embedding of \<^verbatim>\<open>partitionLoadBalancer.ts\<close> (the interface
  \<^verbatim>\<open>PartitionLoadBalancer\<close> and its two implementations
  \<^verbatim>\<open>GreedyPartitionLoadBalancer\<close> and \<^verbatim>\<open>FairPartitionLoadBalancer\<close>).
\<close>

subsection \<open>Data model\<close>

text \<open>
  \<^verbatim>\<open>PartitionOwnership\<close>: the fields the balancers read. A field that is
  \<^verbatim>\<open>undefined\<close> on the JavaScript object is \<open>None\<close>. Times are milliseconds
  since the epoch, read as integers.
\<close>

record PartitionOwnership =
  ownerId :: "string option"
  partitionId :: string
  lastModifiedTimeInMS :: "int option"

text \<open>
  A JavaScript \<^verbatim>\<open>Map\<close> keeps its entries in insertion order; \<^verbatim>\<open>forEach\<close> and
  \<^verbatim>\<open>values()\<close> visit them in that order. It is modelled by the list of its entries.
  \<^verbatim>\<open>set\<close> on a key that is present replaces the value where the entry stands,
  \<^verbatim>\<open>set\<close> on a new key appends the entry.
\<close>

type_synonym ('k, 'v) JsMap = "('k \<times> 'v) list"

definition Map_has :: "('k, 'v) JsMap \<Rightarrow> 'k \<Rightarrow> bool" where
  "Map_has m k = (map_of m k \<noteq> None)"

definition Map_get :: "('k, 'v) JsMap \<Rightarrow> 'k \<Rightarrow> 'v option" where
  "Map_get m k = map_of m k"

primrec Map_set :: "('k, 'v) JsMap \<Rightarrow> 'k \<Rightarrow> 'v \<Rightarrow> ('k, 'v) JsMap" where
  "Map_set [] k v = [(k, v)]"
| "Map_set (e # es) k v = (if fst e = k then (k, v) # es else e # Map_set es k v)"

definition Map_values :: "('k, 'v) JsMap \<Rightarrow> 'v list" where
  "Map_values m = map snd m"

definition Map_size :: "('k, 'v) JsMap \<Rightarrow> nat" where
  "Map_size m = length m"

text \<open>
  Reading \<^verbatim>\<open>xs[i]\<close> from a JavaScript array yields \<^verbatim>\<open>undefined\<close> (here \<open>None\<close>)
  when \<open>i\<close> is not an index of \<open>xs\<close>; it does not throw. Reading a property of
  \<^verbatim>\<open>undefined\<close> throws a \<^verbatim>\<open>TypeError\<close>.
\<close>

datatype error = TypeError

definition Array_get :: "'a list \<Rightarrow> nat \<Rightarrow> 'a option" where
  "Array_get xs i = (if i < length xs then Some (xs ! i) else None)"

text \<open>
  \<^verbatim>\<open>Math.floor(Math.random() * n)\<close>. \<^verbatim>\<open>Math.random()\<close> returns a number \<open>u\<close> with
  \<open>0 \<le> u < 1\<close>, so the expression is \<open>0\<close> when \<open>n = 0\<close> and ranges over exactly
  the indices \<open>0, \<dots>, n - 1\<close> otherwise. The draw is a parameter \<open>r\<close> of the model,
  a natural number that is reduced modulo \<open>n\<close>.
\<close>

definition randomIndex :: "nat \<Rightarrow> nat \<Rightarrow> nat" where
  "randomIndex r n = (if n = 0 then 0 else r mod n)"

subsection \<open>GreedyPartitionLoadBalancer\<close>

text \<open>
  The constructor stores \<^verbatim>\<open>partitionIds && new Set(partitionIds)\<close>: \<open>None\<close> when
  no list was given, the set of the given ids otherwise. The set is only ever asked
  \<^verbatim>\<open>has\<close>, so the list of its members stands for it.
\<close>

record GreedyPartitionLoadBalancer =
  partitionsToClaim :: "string list option"

definition GreedyPartitionLoadBalancer_new :: "string list option \<Rightarrow> GreedyPartitionLoadBalancer" where
  "GreedyPartitionLoadBalancer_new partitionIds = \<lparr> partitionsToClaim = partitionIds \<rparr>"

definition Greedy_loadBalance ::
  "GreedyPartitionLoadBalancer \<Rightarrow> (string, PartitionOwnership) JsMap \<Rightarrow> string list \<Rightarrow> string list" where
  "Greedy_loadBalance this partitionOwnershipMap partitionsToAdd =
     (let potential = (case partitionsToClaim this of
                         None \<Rightarrow> partitionsToAdd
                       | Some toClaim \<Rightarrow> filter (\<lambda>part. part \<in> set toClaim) partitionsToAdd)
      in filter (\<lambda>id. \<not> Map_has partitionOwnershipMap id) potential)"

subsection \<open>FairPartitionLoadBalancer\<close>

record FairPartitionLoadBalancer =
  this_ownerId :: string
  this_inactiveTimeLimitInMS :: int

definition FairPartitionLoadBalancer_new :: "string \<Rightarrow> int \<Rightarrow> FairPartitionLoadBalancer" where
  "FairPartitionLoadBalancer_new oid inactiveTimeLimitInMS =
     \<lparr> this_ownerId = oid, this_inactiveTimeLimitInMS = inactiveTimeLimitInMS \<rparr>"

text \<open>
  \<^verbatim>\<open>Number.MIN_VALUE\<close> is the smallest positive double, \<open>1 / 2 ^ 1074\<close>: it is
  greater than zero and smaller than every positive array length.
\<close>

definition Number_MIN_VALUE :: rat where
  "Number_MIN_VALUE = 1 / 2 ^ 1074"

text \<open>
  \<^verbatim>\<open>_findPartitionToSteal\<close>. The \<^verbatim>\<open>forEach\<close> callback updates \<open>maxList\<close> and
  \<open>maxPartitionsOwnedByAnyEventProcessor\<close>; the pair of the two is the loop state.
  (The callback's assignment \<^verbatim>\<open>ownerId = ownerId\<close> writes its own parameter and is
  only read by the log line.) The result reads \<^verbatim>\<open>.partitionId\<close> of an array element,
  which throws when the element is \<^verbatim>\<open>undefined\<close>.
\<close>

definition findPartitionToSteal_step ::
  "PartitionOwnership list \<Rightarrow> PartitionOwnership list \<times> rat \<Rightarrow> PartitionOwnership list \<times> rat" where
  "findPartitionToSteal_step ownershipList st =
     (if of_nat (length ownershipList) > snd st
      then (ownershipList, of_nat (length ownershipList))
      else st)"

definition findPartitionToSteal_maxList ::
  "('k, PartitionOwnership list) JsMap \<Rightarrow> PartitionOwnership list" where
  "findPartitionToSteal_maxList ownerPartitionMap =
     fst (fold findPartitionToSteal_step (Map_values ownerPartitionMap) ([], Number_MIN_VALUE))"

definition findPartitionToSteal ::
  "nat \<Rightarrow> ('k, PartitionOwnership list) JsMap \<Rightarrow> error + string" where
  "findPartitionToSteal r ownerPartitionMap =
     (let maxList = findPartitionToSteal_maxList ownerPartitionMap
      in case Array_get maxList (randomIndex r (length maxList)) of
           None \<Rightarrow> Inl TypeError
         | Some po \<Rightarrow> Inr (partitionId po))"

text \<open>
  \<^verbatim>\<open>_shouldOwnMorePartitions\<close>. \<^verbatim>\<open>ownerPartitionMap.get(this._ownerId)!.length\<close>
  throws when the owner has no entry.
\<close>

definition sumOfPartitionsOwnedByAnyProcessor ::
  "('k, PartitionOwnership list) JsMap \<Rightarrow> nat" where
  "sumOfPartitionsOwnedByAnyProcessor ownerPartitionMap =
     fold (\<lambda>ownershipList s. s + length ownershipList) (Map_values ownerPartitionMap) 0"

definition shouldOwnMorePartitions ::
  "FairPartitionLoadBalancer \<Rightarrow> nat \<Rightarrow> string list \<Rightarrow>
   (string option, PartitionOwnership list) JsMap \<Rightarrow> error + bool" where
  "shouldOwnMorePartitions this minPartitionsPerEventProcessor partitionIds ownerPartitionMap =
     (case Map_get ownerPartitionMap (Some (this_ownerId this)) of
        None \<Rightarrow> Inl TypeError
      | Some owned \<Rightarrow>
          (let numberOfPartitionsOwned = length owned
           in Inr (numberOfPartitionsOwned < minPartitionsPerEventProcessor \<or>
                   (sumOfPartitionsOwnedByAnyProcessor ownerPartitionMap < length partitionIds \<and>
                    numberOfPartitionsOwned < minPartitionsPerEventProcessor + 1))))"

text \<open>
  \<^verbatim>\<open>_isLoadBalanced\<close>. The loop returns \<^verbatim>\<open>false\<close> from inside at the first list
  whose length is out of bounds (here \<open>None\<close>), and otherwise counts the lists of
  length \<open>min + 1\<close>.
\<close>

fun isLoadBalanced_loop :: "nat \<Rightarrow> nat \<Rightarrow> 'a list list \<Rightarrow> nat option" where
  "isLoadBalanced_loop minP count [] = Some count"
| "isLoadBalanced_loop minP count (ownershipList # rest) =
     (let numberOfPartitions = length ownershipList
      in if numberOfPartitions < minP \<or> numberOfPartitions > minP + 1 then None
         else isLoadBalanced_loop minP
                (if numberOfPartitions = minP + 1 then count + 1 else count) rest)"

definition isLoadBalanced ::
  "nat \<Rightarrow> nat \<Rightarrow> ('k, PartitionOwnership list) JsMap \<Rightarrow> bool" where
  "isLoadBalanced minPartitionsPerEventProcessor numberOfEventProcessorsWithAdditionalPartition
     ownerPartitionMap =
     (case isLoadBalanced_loop minPartitionsPerEventProcessor 0 (Map_values ownerPartitionMap) of
        None \<Rightarrow> False
      | Some count \<Rightarrow> count = numberOfEventProcessorsWithAdditionalPartition)"

text \<open>
  \<^verbatim>\<open>_removeInactivePartitionOwnerships\<close>; \<open>removeInactive_step\<close> is the
  \<^verbatim>\<open>forEach\<close> callback. The condition is the JavaScript
  \<^verbatim>\<open>a && b && c\<close>: \<^verbatim>\<open>lastModifiedTimeInMS\<close> is truthy (defined and not \<open>0\<close>), the
  record is younger than the limit, and \<^verbatim>\<open>ownerId\<close> is truthy (defined and not the
  empty string). The source reads the clock once per entry; the model takes one reading
  \<open>now\<close> for the whole call.
\<close>

definition isActive :: "FairPartitionLoadBalancer \<Rightarrow> int \<Rightarrow> PartitionOwnership \<Rightarrow> bool" where
  "isActive this now partitionOwnership =
     (case lastModifiedTimeInMS partitionOwnership of
        None \<Rightarrow> False
      | Some t \<Rightarrow>
          t \<noteq> 0 \<and> now - t < this_inactiveTimeLimitInMS this \<and>
          (case ownerId partitionOwnership of None \<Rightarrow> False | Some oid \<Rightarrow> oid \<noteq> []))"

definition removeInactive_step ::
  "FairPartitionLoadBalancer \<Rightarrow> int \<Rightarrow> string \<times> PartitionOwnership \<Rightarrow>
   (string, PartitionOwnership) JsMap \<Rightarrow> (string, PartitionOwnership) JsMap" where
  "removeInactive_step this now entry activePartitionOwnershipMap =
     (if isActive this now (snd entry)
      then Map_set activePartitionOwnershipMap (fst entry) (snd entry)
      else activePartitionOwnershipMap)"

definition removeInactivePartitionOwnerships ::
  "FairPartitionLoadBalancer \<Rightarrow> int \<Rightarrow> (string, PartitionOwnership) JsMap \<Rightarrow>
   (string, PartitionOwnership) JsMap" where
  "removeInactivePartitionOwnerships this now partitionOwnershipMap =
     fold (removeInactive_step this now) partitionOwnershipMap []"

text \<open>
  The first loop of \<^verbatim>\<open>loadBalance\<close>: group the active records by owner
  (\<open>groupByOwner_step\<close> is the loop body). The keys
  are the values of \<^verbatim>\<open>ownerId\<close>, whatever they are.
  \<^verbatim>\<open>ownerPartitionMap.get(..) || []\<close> takes the empty array only for a missing key (an
  array is truthy).
\<close>

definition groupByOwner_step ::
  "PartitionOwnership \<Rightarrow> (string option, PartitionOwnership list) JsMap \<Rightarrow>
   (string option, PartitionOwnership list) JsMap" where
  "groupByOwner_step activePartitionOwnership ownerPartitionMap =
     (let partitionOwnershipArray =
            (case Map_get ownerPartitionMap (ownerId activePartitionOwnership) of
               None \<Rightarrow> []
             | Some arr \<Rightarrow> arr)
      in Map_set ownerPartitionMap (ownerId activePartitionOwnership)
           (partitionOwnershipArray @ [activePartitionOwnership]))"

definition groupByOwner ::
  "(string, PartitionOwnership) JsMap \<Rightarrow> (string option, PartitionOwnership list) JsMap" where
  "groupByOwner activePartitionOwnershipMap =
     fold groupByOwner_step (Map_values activePartitionOwnershipMap) []"

text \<open>The owner map after the caller has been added to it (source lines 205 to 215).\<close>

definition ownerPartitionMapOf ::
  "FairPartitionLoadBalancer \<Rightarrow> (string, PartitionOwnership) JsMap \<Rightarrow>
   (string option, PartitionOwnership list) JsMap" where
  "ownerPartitionMapOf this activePartitionOwnershipMap =
     (let ownerPartitionMap = groupByOwner activePartitionOwnershipMap
      in if \<not> Map_has ownerPartitionMap (Some (this_ownerId this))
         then Map_set ownerPartitionMap (Some (this_ownerId this)) []
         else ownerPartitionMap)"

text \<open>
  \<^verbatim>\<open>loadBalance\<close>. The result is the returned array, whose elements are strings or
  \<^verbatim>\<open>undefined\<close> (\<open>None\<close>), or the error thrown. \<open>now\<close> is the clock and \<open>r\<close> the
  random draw; at most one draw is made per call. \<^verbatim>\<open>Math.floor(P / C)\<close> is exact
  integer division for array lengths, and \<open>C\<close> is never zero there.
\<close>

definition Fair_loadBalance ::
  "FairPartitionLoadBalancer \<Rightarrow> int \<Rightarrow> nat \<Rightarrow> (string, PartitionOwnership) JsMap \<Rightarrow>
   string list \<Rightarrow> error + string option list" where
  "Fair_loadBalance this now r partitionOwnershipMap partitionsToAdd =
     (let activePartitionOwnershipMap =
            removeInactivePartitionOwnerships this now partitionOwnershipMap
      in if Map_size activePartitionOwnershipMap = 0
         then Inr [Array_get partitionsToAdd (randomIndex r (length partitionsToAdd))]
         else
           (let ownerPartitionMap = ownerPartitionMapOf this activePartitionOwnershipMap;
                minPartitionsPerEventProcessor =
                  length partitionsToAdd div Map_size ownerPartitionMap;
                numberOfEventProcessorsWithAdditionalPartition =
                  length partitionsToAdd mod Map_size ownerPartitionMap
            in if isLoadBalanced minPartitionsPerEventProcessor
                    numberOfEventProcessorsWithAdditionalPartition ownerPartitionMap
               then Inr []
               else
                 (case shouldOwnMorePartitions this minPartitionsPerEventProcessor
                         partitionsToAdd ownerPartitionMap of
                    Inl e \<Rightarrow> Inl e
                  | Inr False \<Rightarrow> Inr []
                  | Inr True \<Rightarrow>
                      (let unOwnedPartitionIds =
                             filter (\<lambda>pid. \<not> Map_has activePartitionOwnershipMap pid)
                               partitionsToAdd
                       in if length unOwnedPartitionIds = 0
                          then (case findPartitionToSteal r ownerPartitionMap of
                                  Inl e \<Rightarrow> Inl e
                                | Inr partitionToClaim \<Rightarrow> Inr [Some partitionToClaim])
                          else Inr [Array_get unOwnedPartitionIds
                                      (randomIndex r (length unOwnedPartitionIds))]))))"

section \<open>Notions used in the statements\<close>

text \<open>The active records of one owner, in the order of the active map.\<close>

definition ownedBy :: "string \<Rightarrow> (string, PartitionOwnership) JsMap \<Rightarrow> PartitionOwnership list" where
  "ownedBy oid a = filter (\<lambda>po. ownerId po = Some oid) (Map_values a)"

text \<open>
  The balanced predicate in the words of the specification (section 4.2, step 5), for
  \<open>P\<close> candidate partitions and an owner view with \<open>C = length view\<close> owners: every
  owner holds between \<open>P div C\<close> and \<open>P div C + 1\<close> partitions, and exactly
  \<open>P mod C\<close> owners hold \<open>P div C + 1\<close>.
\<close>

definition balancedView :: "nat \<Rightarrow> ('k, 'a list) JsMap \<Rightarrow> bool" where
  "balancedView P view =
     (list_all (\<lambda>e. P div length view \<le> length (snd e) \<and> length (snd e) \<le> P div length view + 1) view \<and>
      length (filter (\<lambda>e. length (snd e) = P div length view + 1) view) = P mod length view)"

text \<open>A ledger entry stored under its own partition id, for the examples.\<close>

definition mkOwnership :: "string \<Rightarrow> string \<Rightarrow> int \<Rightarrow> string \<times> PartitionOwnership" where
  "mkOwnership pid oid t =
     (pid, \<lparr> ownerId = Some oid, partitionId = pid, lastModifiedTimeInMS = Some t \<rparr>)"

text \<open>
  The invariant of the loop of \<^verbatim>\<open>_findPartitionToSteal\<close>: either nothing was
  selected yet and the maximum is still \<^verbatim>\<open>Number.MIN_VALUE\<close>, or the selected list
  is not empty and the maximum is its length.
\<close>

definition stealInv :: "PartitionOwnership list \<times> rat \<Rightarrow> bool" where
  "stealInv st \<longleftrightarrow>
     (fst st = [] \<and> snd st = Number_MIN_VALUE) \<or>
     (fst st \<noteq> [] \<and> snd st = of_nat (length (fst st)))"

text \<open>
  Lines 236 to 294 of \<^verbatim>\<open>loadBalance\<close> (the balance check, the should-own-more check
  and the choice of the partition) as a function of the two targets
  \<open>minPartitionsPerEventProcessor\<close> and
  \<open>numberOfEventProcessorsWithAdditionalPartition\<close>, so that a statement can name the
  values the targets take. \<open>Fair_loadBalance_steps\<close> below shows that
  \<open>Fair_loadBalance\<close> is this function at \<open>P div C\<close> and \<open>P mod C\<close>, for \<open>C\<close> the
  size of the owner map.
\<close>

definition balanceAndClaim ::
  "FairPartitionLoadBalancer \<Rightarrow> nat \<Rightarrow> (string, PartitionOwnership) JsMap \<Rightarrow> string list \<Rightarrow>
   (string option, PartitionOwnership list) JsMap \<Rightarrow> nat \<Rightarrow> nat \<Rightarrow> error + string option list" where
  "balanceAndClaim this r activePartitionOwnershipMap partitionsToAdd ownerPartitionMap
     minPartitionsPerEventProcessor numberOfEventProcessorsWithAdditionalPartition =
     (if isLoadBalanced minPartitionsPerEventProcessor
           numberOfEventProcessorsWithAdditionalPartition ownerPartitionMap
      then Inr []
      else
        (case shouldOwnMorePartitions this minPartitionsPerEventProcessor
                partitionsToAdd ownerPartitionMap of
           Inl e \<Rightarrow> Inl e
         | Inr False \<Rightarrow> Inr []
         | Inr True \<Rightarrow>
             (let unOwnedPartitionIds =
                    filter (\<lambda>pid. \<not> Map_has activePartitionOwnershipMap pid) partitionsToAdd
              in if length unOwnedPartitionIds = 0
                 then (case findPartitionToSteal r ownerPartitionMap of
                         Inl e \<Rightarrow> Inl e
                       | Inr partitionToClaim \<Rightarrow> Inr [Some partitionToClaim])
                 else Inr [Array_get unOwnedPartitionIds
                             (randomIndex r (length unOwnedPartitionIds))])))"

text \<open>
  The loop of \<^verbatim>\<open>_findPartitionToSteal\<close> over natural numbers: the selected list
  changes exactly when the next list is longer. It is proved equal to the selection of
  \<open>findPartitionToSteal_maxList\<close> below and used to evaluate it.
\<close>

fun maxListFrom :: "'a list \<Rightarrow> 'a list list \<Rightarrow> 'a list" where
  "maxListFrom cur [] = cur"
| "maxListFrom cur (l # ls) = maxListFrom (if length cur < length l then l else cur) ls"

section \<open>The caller loop, simulated\<close>

text \<open>
  Modelled from the spec: the caller loop (\<^verbatim>\<open>EventProcessor\<close> in
  \<^verbatim>\<open>eventProcessor.ts\<close>, which is not among the source files modelled here). Section 6 of the specification: the loop invokes
  \<^verbatim>\<open>loadBalance(ledger, candidatePartitions)\<close> and persists any returned claim with
  heartbeat timestamp \<open>now\<close>. The convergence property of section 8 runs it as a
  simulation without races: one instance calls at a time and its claim is written to the
  ledger at once. The clock stands still during the simulation, so every written record
  stays fresh.
\<close>

definition claimRecord :: "string \<Rightarrow> int \<Rightarrow> string \<Rightarrow> PartitionOwnership" where
  "claimRecord oid now pid =
     \<lparr> ownerId = Some oid, partitionId = pid, lastModifiedTimeInMS = Some now \<rparr>"

text \<open>
  Modelled from the spec: persisting the claims of one call. An \<^verbatim>\<open>undefined\<close> element
  names no partition and is not written.
\<close>

definition persistClaims ::
  "string \<Rightarrow> int \<Rightarrow> string option list \<Rightarrow> (string, PartitionOwnership) JsMap \<Rightarrow>
   (string, PartitionOwnership) JsMap" where
  "persistClaims oid now claims ledger =
     fold (\<lambda>c l. case c of None \<Rightarrow> l | Some pid \<Rightarrow> Map_set l pid (claimRecord oid now pid))
       claims ledger"

text \<open>
  Modelled from the spec: one round of one instance. A call is the pair of the calling
  instance's owner id and its random draw.
\<close>

definition simRound ::
  "int \<Rightarrow> int \<Rightarrow> string list \<Rightarrow> string \<times> nat \<Rightarrow> (string, PartitionOwnership) JsMap \<Rightarrow>
   (string, PartitionOwnership) JsMap" where
  "simRound limit now cands call ledger =
     (case Fair_loadBalance (FairPartitionLoadBalancer_new (fst call) limit) now (snd call)
             ledger cands of
        Inl e \<Rightarrow> ledger
      | Inr claims \<Rightarrow> persistClaims (fst call) now claims ledger)"

text \<open>Modelled from the spec: the rounds of a schedule, one after the other.\<close>

definition simulate ::
  "int \<Rightarrow> int \<Rightarrow> string list \<Rightarrow> (string \<times> nat) list \<Rightarrow> (string, PartitionOwnership) JsMap \<Rightarrow>
   (string, PartitionOwnership) JsMap" where
  "simulate limit now cands schedule ledger = fold (simRound limit now cands) schedule ledger"

text \<open>
  The balanced predicate of the specification on a ledger, in the view of the instance
  \<open>oid\<close>.
\<close>

definition balancedFor ::
  "int \<Rightarrow> int \<Rightarrow> string list \<Rightarrow> (string, PartitionOwnership) JsMap \<Rightarrow> string \<Rightarrow> bool" where
  "balancedFor limit now cands ledger oid =
     balancedView (length cands)
       (ownerPartitionMapOf (FairPartitionLoadBalancer_new oid limit)
          (removeInactivePartitionOwnerships (FairPartitionLoadBalancer_new oid limit) now ledger))"

text \<open>
  The ledgers of the simulation: the keys are distinct candidate ids and every entry is
  the fresh claim of one of the instances for its key.
\<close>

definition wfLedger ::
  "int \<Rightarrow> string list \<Rightarrow> string list \<Rightarrow> (string, PartitionOwnership) JsMap \<Rightarrow> bool" where
  "wfLedger now cands insts L \<longleftrightarrow>
     distinct (map fst L) \<and>
     (\<forall>e \<in> set L. fst e \<in> set cands \<and> (\<exists>oid \<in> set insts. snd e = claimRecord oid now (fst e)))"

text \<open>
  Inside a round, while a candidate is still unowned: \<open>D\<close> is the set of the instances
  that have called in this round; they hold \<open>s + 1\<close> partitions and the others \<open>s\<close>.
\<close>

definition midInv ::
  "string list \<Rightarrow> string list \<Rightarrow> nat \<Rightarrow> string set \<Rightarrow> (string, PartitionOwnership) JsMap \<Rightarrow> bool" where
  "midInv cands insts s D L \<longleftrightarrow>
     length L < length cands \<and> D \<subseteq> set insts \<and> length L = length insts * s + card D \<and>
     (\<forall>oid \<in> set insts. length (ownedBy oid L) = (if oid \<in> D then s + 1 else s))"

text \<open>
  Once every candidate is owned: every instance holds \<open>P div C\<close> or \<open>P div C + 1\<close>
  partitions.
\<close>

definition fullInv ::
  "string list \<Rightarrow> string list \<Rightarrow> (string, PartitionOwnership) JsMap \<Rightarrow> bool" where
  "fullInv cands insts L \<longleftrightarrow>
     length L = length cands \<and>
     (\<forall>oid \<in> set insts.
        length cands div length insts \<le> length (ownedBy oid L) \<and>
        length (ownedBy oid L) \<le> length cands div length insts + 1)"

section \<open>Properties of the embedding\<close>

subsection \<open>The map operations\<close>

lemma map_of_Map_set: "map_of (Map_set m k v) = (map_of m)(k \<mapsto> v)"
  by (induction m) auto

lemma keys_Map_set:
  "map fst (Map_set m k v) = (if k \<in> fst ` set m then map fst m else map fst m @ [k])"
  by (induction m) auto

lemma distinct_Map_set: "distinct (map fst m) \<Longrightarrow> distinct (map fst (Map_set m k v))"
  by (simp add: keys_Map_set)

lemma Map_set_not_Nil: "Map_set m k v \<noteq> []"
  by (cases m) auto

lemma Map_has_iff: "Map_has m k \<longleftrightarrow> k \<in> fst ` set m"
  by (simp add: Map_has_def map_of_eq_None_iff)

lemma Map_set_absent: "k \<notin> fst ` set m \<Longrightarrow> Map_set m k v = m @ [(k, v)]"
  by (induction m) auto

lemma set_Map_set_subset: "set (Map_set m k v) \<subseteq> insert (k, v) (set m)"
  by (induction m) auto

lemma length_Map_set:
  "length (Map_set m k v) = (if k \<in> fst ` set m then length m else Suc (length m))"
  by (induction m) auto

lemma sum_length_Map_set:
  "distinct (map fst m) \<Longrightarrow>
   sum_list (map (\<lambda>e. length (snd e)) (Map_set m k v)) + (case map_of m k of None \<Rightarrow> 0 | Some l \<Rightarrow> length l)
   = sum_list (map (\<lambda>e. length (snd e)) m) + length v"
  by (induction m) (auto simp: map_of_eq_None_iff image_iff split: option.splits)

lemma dom_Map_set: "fst ` set (Map_set m k v) = insert k (fst ` set m)"
  by (induction m) auto

subsection \<open>Pruning of inactive records\<close>

lemma removeInactive_fold_distinct:
  "distinct (map fst acc) \<Longrightarrow> distinct (map fst (fold (removeInactive_step this now) xs acc))"
  by (induction xs arbitrary: acc) (auto simp: removeInactive_step_def distinct_Map_set)

lemma distinct_removeInactive:
  "distinct (map fst (removeInactivePartitionOwnerships this now m))"
  by (simp add: removeInactivePartitionOwnerships_def removeInactive_fold_distinct)

lemma removeInactive_fold_set:
  "set (fold (removeInactive_step this now) xs acc) \<subseteq> set acc \<union> {e \<in> set xs. isActive this now (snd e)}"
proof (induction xs arbitrary: acc)
  case Nil then show ?case by simp
next
  case (Cons x xs)
  show ?case using Cons.IH[of "removeInactive_step this now x acc"]
      set_Map_set_subset[of acc "fst x" "snd x"]
    by (auto simp: removeInactive_step_def split: if_splits)
qed

lemma removeInactive_set:
  "e \<in> set (removeInactivePartitionOwnerships this now m) \<Longrightarrow> e \<in> set m \<and> isActive this now (snd e)"
  using removeInactive_fold_set[of this now m "[]"]
  by (auto simp: removeInactivePartitionOwnerships_def)

lemma removeInactive_step_simps:
  "isActive this now (snd e) \<Longrightarrow> removeInactive_step this now e acc = Map_set acc (fst e) (snd e)"
  "\<not> isActive this now (snd e) \<Longrightarrow> removeInactive_step this now e acc = acc"
  by (simp_all add: removeInactive_step_def)

lemma removeInactive_fold_keys:
  "fst ` set (fold (removeInactive_step this now) xs acc)
     = fst ` set acc \<union> fst ` {e \<in> set xs. isActive this now (snd e)}"
proof (induction xs arbitrary: acc)
  case Nil then show ?case by simp
next
  case (Cons x xs)
  show ?case
  proof (cases "isActive this now (snd x)")
    case True
    then show ?thesis
      by (simp add: Cons.IH removeInactive_step_simps dom_Map_set) blast
  next
    case False
    then show ?thesis
      by (simp add: Cons.IH removeInactive_step_simps) blast
  qed
qed

lemma removeInactive_keys:
  "fst ` set (removeInactivePartitionOwnerships this now m) = fst ` {e \<in> set m. isActive this now (snd e)}"
  by (simp add: removeInactivePartitionOwnerships_def removeInactive_fold_keys)

lemma removeInactive_fold_filter:
  "distinct (map fst (acc @ xs)) \<Longrightarrow>
   fold (removeInactive_step this now) xs acc = acc @ filter (\<lambda>e. isActive this now (snd e)) xs"
proof (induction xs arbitrary: acc)
  case Nil then show ?case by simp
next
  case (Cons x xs)
  show ?case
  proof (cases "isActive this now (snd x)")
    case True
    have "fst x \<notin> fst ` set acc" using Cons.prems by auto
    then have s: "Map_set acc (fst x) (snd x) = acc @ [x]" by (simp add: Map_set_absent)
    have "distinct (map fst ((acc @ [x]) @ xs))" using Cons.prems by simp
    from Cons.IH[OF this] show ?thesis using True s by (simp add: removeInactive_step_def)
  next
    case False
    have "distinct (map fst (acc @ xs))" using Cons.prems by simp
    from Cons.IH[OF this] show ?thesis using False by (simp add: removeInactive_step_def)
  qed
qed

lemma removeInactive_filter:
  "distinct (map fst m) \<Longrightarrow>
   removeInactivePartitionOwnerships this now m = filter (\<lambda>e. isActive this now (snd e)) m"
  using removeInactive_fold_filter[of "[]" m this now]
  by (simp add: removeInactivePartitionOwnerships_def)

lemma removeInactive_skip:
  "\<not> isActive this now po \<Longrightarrow>
   removeInactivePartitionOwnerships this now (xs @ (k, po) # ys)
     = removeInactivePartitionOwnerships this now (xs @ ys)"
  by (simp add: removeInactivePartitionOwnerships_def removeInactive_step_def)

subsection \<open>Grouping by owner\<close>

lemma groupByOwner_step_eq:
  "groupByOwner_step po acc =
     Map_set acc (ownerId po) ((case map_of acc (ownerId po) of None \<Rightarrow> [] | Some l \<Rightarrow> l) @ [po])"
  by (simp add: groupByOwner_step_def Map_get_def)

lemma group_fold_map_of:
  "map_of (fold groupByOwner_step vs acc) k =
     (if k \<in> ownerId ` set vs \<or> k \<in> fst ` set acc
      then Some ((case map_of acc k of None \<Rightarrow> [] | Some l \<Rightarrow> l) @ filter (\<lambda>po. ownerId po = k) vs)
      else None)"
proof (induction vs arbitrary: acc)
  case Nil
  then show ?case by (auto simp: map_of_eq_None_iff split: option.splits)
next
  case (Cons v vs)
  define acc' where "acc' = groupByOwner_step v acc"
  have m: "map_of acc' = (map_of acc)(ownerId v \<mapsto>
             (case map_of acc (ownerId v) of None \<Rightarrow> [] | Some l \<Rightarrow> l) @ [v])"
    unfolding acc'_def groupByOwner_step_eq by (rule map_of_Map_set)
  have d: "fst ` set acc' = insert (ownerId v) (fst ` set acc)"
    unfolding acc'_def groupByOwner_step_eq by (rule dom_Map_set)
  have "map_of (fold groupByOwner_step (v # vs) acc) k = map_of (fold groupByOwner_step vs acc') k"
    by (simp add: acc'_def)
  also have "\<dots> = (if k \<in> ownerId ` set vs \<or> k \<in> fst ` set acc'
      then Some ((case map_of acc' k of None \<Rightarrow> [] | Some l \<Rightarrow> l) @ filter (\<lambda>po. ownerId po = k) vs)
      else None)"
    by (rule Cons.IH)
  also have "\<dots> = (if k \<in> ownerId ` set (v # vs) \<or> k \<in> fst ` set acc
      then Some ((case map_of acc k of None \<Rightarrow> [] | Some l \<Rightarrow> l) @ filter (\<lambda>po. ownerId po = k) (v # vs))
      else None)"
    unfolding m d by (auto split: option.splits)
  finally show ?case .
qed

lemma group_fold_keys:
  "fst ` set (fold groupByOwner_step vs acc) = fst ` set acc \<union> ownerId ` set vs"
proof (induction vs arbitrary: acc)
  case Nil then show ?case by simp
next
  case (Cons v vs)
  have d: "fst ` set (groupByOwner_step v acc) = insert (ownerId v) (fst ` set acc)"
    unfolding groupByOwner_step_eq by (rule dom_Map_set)
  have "fst ` set (fold groupByOwner_step (v # vs) acc)
          = fst ` set (groupByOwner_step v acc) \<union> ownerId ` set vs"
    using Cons.IH[of "groupByOwner_step v acc"] by simp
  then show ?case unfolding d by auto
qed

lemma group_fold_distinct:
  "distinct (map fst acc) \<Longrightarrow> distinct (map fst (fold groupByOwner_step vs acc))"
proof (induction vs arbitrary: acc)
  case Nil then show ?case by simp
next
  case (Cons v vs)
  have "distinct (map fst (groupByOwner_step v acc))"
    unfolding groupByOwner_step_eq using Cons.prems by (rule distinct_Map_set)
  from Cons.IH[OF this] show ?case by simp
qed

lemma group_fold_sum:
  "distinct (map fst acc) \<Longrightarrow>
   sum_list (map (\<lambda>e. length (snd e)) (fold groupByOwner_step vs acc))
     = sum_list (map (\<lambda>e. length (snd e)) acc) + length vs"
proof (induction vs arbitrary: acc)
  case Nil then show ?case by simp
next
  case (Cons v vs)
  define acc' where "acc' = groupByOwner_step v acc"
  have d: "distinct (map fst acc')"
    unfolding acc'_def groupByOwner_step_eq using Cons.prems by (rule distinct_Map_set)
  have s: "sum_list (map (\<lambda>e. length (snd e)) acc') = sum_list (map (\<lambda>e. length (snd e)) acc) + 1"
    unfolding acc'_def groupByOwner_step_eq
    using sum_length_Map_set[OF Cons.prems, of "ownerId v" "(case map_of acc (ownerId v) of None \<Rightarrow> [] | Some l \<Rightarrow> l) @ [v]"]
    by (auto split: option.splits)
  have "sum_list (map (\<lambda>e. length (snd e)) (fold groupByOwner_step (v # vs) acc))
          = sum_list (map (\<lambda>e. length (snd e)) (fold groupByOwner_step vs acc'))"
    by (simp add: acc'_def)
  also have "\<dots> = sum_list (map (\<lambda>e. length (snd e)) acc') + length vs"
    by (rule Cons.IH[OF d])
  finally show ?case unfolding s by simp
qed

lemma groupByOwner_map_of:
  "map_of (groupByOwner a) k =
     (if k \<in> ownerId ` snd ` set a then Some (filter (\<lambda>po. ownerId po = k) (map snd a)) else None)"
  by (simp add: groupByOwner_def Map_values_def group_fold_map_of)

lemma groupByOwner_keys: "fst ` set (groupByOwner a) = ownerId ` snd ` set a"
  by (simp add: groupByOwner_def Map_values_def group_fold_keys)

lemma groupByOwner_distinct: "distinct (map fst (groupByOwner a))"
  by (simp add: groupByOwner_def group_fold_distinct)

lemma groupByOwner_sum: "sum_list (map (\<lambda>e. length (snd e)) (groupByOwner a)) = length a"
  by (simp add: groupByOwner_def Map_values_def group_fold_sum)

text \<open>The owner map with the caller added.\<close>

lemma opm_map_of:
  "map_of (ownerPartitionMapOf this a) k =
     (if k \<in> ownerId ` snd ` set a \<or> k = Some (this_ownerId this)
      then Some (filter (\<lambda>po. ownerId po = k) (map snd a)) else None)"
proof -
  have "filter (\<lambda>po. ownerId po = k) (map snd a) = []" if "k \<notin> ownerId ` snd ` set a"
    using that by (auto simp: filter_empty_conv)
  then show ?thesis
    by (auto simp: ownerPartitionMapOf_def Let_def Map_has_iff groupByOwner_keys
        map_of_Map_set groupByOwner_map_of)
qed

lemma opm_keys:
  "fst ` set (ownerPartitionMapOf this a) = insert (Some (this_ownerId this)) (ownerId ` snd ` set a)"
  by (auto simp: ownerPartitionMapOf_def Let_def Map_has_iff groupByOwner_keys dom_Map_set)

lemma opm_distinct: "distinct (map fst (ownerPartitionMapOf this a))"
  by (simp add: ownerPartitionMapOf_def Let_def groupByOwner_distinct distinct_Map_set)

lemma opm_sum: "sum_list (map (\<lambda>e. length (snd e)) (ownerPartitionMapOf this a)) = length a"
  by (auto simp: ownerPartitionMapOf_def Let_def Map_has_iff groupByOwner_sum Map_set_absent)

lemma opm_size: "Map_size (ownerPartitionMapOf this a) = card (insert (Some (this_ownerId this)) (ownerId ` snd ` set a))"
  using distinct_card[OF opm_distinct, of this a] opm_keys[of this a]
  by (simp add: Map_size_def)

lemma opm_size_pos: "0 < Map_size (ownerPartitionMapOf this a)"
  by (simp add: opm_size card_gt_0_iff)

lemma opm_not_Nil: "ownerPartitionMapOf this a \<noteq> []"
  using opm_size_pos[of this a] by (auto simp: Map_size_def)

lemma fold_add_length:
  "fold (\<lambda>l s. s + length l) ls c = c + sum_list (map length ls)"
  by (induction ls arbitrary: c) auto

lemma sumOfPartitionsOwned_eq:
  "sumOfPartitionsOwnedByAnyProcessor m = sum_list (map (\<lambda>e. length (snd e)) m)"
  by (simp add: sumOfPartitionsOwnedByAnyProcessor_def Map_values_def fold_add_length comp_def)

subsection \<open>The balance check\<close>

lemma isLoadBalanced_loop_eq:
  "isLoadBalanced_loop m c ls =
     (if list_all (\<lambda>l. m \<le> length l \<and> length l \<le> m + 1) ls
      then Some (c + length (filter (\<lambda>l. length l = m + 1) ls)) else None)"
  by (induction m c ls rule: isLoadBalanced_loop.induct) (auto simp: Let_def)

lemma isLoadBalanced_iff:
  "isLoadBalanced m x opm \<longleftrightarrow>
     list_all (\<lambda>l. m \<le> length l \<and> length l \<le> m + 1) (Map_values opm) \<and>
     length (filter (\<lambda>l. length l = m + 1) (Map_values opm)) = x"
  by (simp add: isLoadBalanced_def isLoadBalanced_loop_eq)

subsection \<open>The steal target\<close>

lemma MIN_VALUE_pos: "0 < Number_MIN_VALUE"
  by (simp add: Number_MIN_VALUE_def)

lemma MIN_VALUE_less_length: "Number_MIN_VALUE < of_nat (length l) \<longleftrightarrow> l \<noteq> []"
proof (cases l)
  case Nil then show ?thesis using MIN_VALUE_pos by simp
next
  case (Cons x xs)
  have "Number_MIN_VALUE < 1" by (simp add: Number_MIN_VALUE_def)
  also have "(1::rat) \<le> of_nat (length l)" using Cons by simp
  finally show ?thesis using Cons by simp
qed

lemma steal_step_cases:
  assumes "stealInv st"
  shows "stealInv (findPartitionToSteal_step l st) \<and>
         ((fst (findPartitionToSteal_step l st) = fst st \<and> length l \<le> length (fst st)) \<or>
          (fst (findPartitionToSteal_step l st) = l \<and> length (fst st) \<le> length l))"
proof (cases "fst st = []")
  case True
  then have s: "snd st = Number_MIN_VALUE" using assms by (auto simp: stealInv_def)
  show ?thesis
  proof (cases "l = []")
    case True
    then have "findPartitionToSteal_step l st = st"
      using MIN_VALUE_less_length[of l] by (simp add: findPartitionToSteal_step_def s)
    then show ?thesis using assms True by simp
  next
    case False
    then have "findPartitionToSteal_step l st = (l, of_nat (length l))"
      using MIN_VALUE_less_length[of l] by (simp add: findPartitionToSteal_step_def s)
    then show ?thesis using False True by (simp add: stealInv_def)
  qed
next
  case False
  then have s: "snd st = of_nat (length (fst st))" using assms by (auto simp: stealInv_def)
  show ?thesis
  proof (cases "length (fst st) < length l")
    case True
    then have "findPartitionToSteal_step l st = (l, of_nat (length l))"
      by (simp add: findPartitionToSteal_step_def s)
    moreover have "l \<noteq> []" using True by auto
    ultimately show ?thesis using True by (simp add: stealInv_def)
  next
    case False
    then have "findPartitionToSteal_step l st = st"
      by (simp add: findPartitionToSteal_step_def s)
    then show ?thesis using assms False by simp
  qed
qed

lemma steal_fold:
  "stealInv st \<Longrightarrow>
   stealInv (fold findPartitionToSteal_step ls st) \<and>
   (fst (fold findPartitionToSteal_step ls st) = fst st \<or> fst (fold findPartitionToSteal_step ls st) \<in> set ls) \<and>
   length (fst st) \<le> length (fst (fold findPartitionToSteal_step ls st)) \<and>
   (\<forall>l\<in>set ls. length l \<le> length (fst (fold findPartitionToSteal_step ls st)))"
proof (induction ls arbitrary: st)
  case Nil then show ?case by simp
next
  case (Cons l ls)
  define st' where "st' = findPartitionToSteal_step l st"
  have f: "fold findPartitionToSteal_step (l # ls) st = fold findPartitionToSteal_step ls st'"
    by (simp add: st'_def)
  from steal_step_cases[OF Cons.prems, of l]
  have inv': "stealInv st'"
    and c: "(fst st' = fst st \<and> length l \<le> length (fst st)) \<or> fst st' = l \<and> length (fst st) \<le> length l"
    unfolding st'_def by blast+
  from Cons.IH[OF inv'] c show ?case unfolding f by auto
qed

lemma stealInv_init: "stealInv ([], Number_MIN_VALUE)"
  by (simp add: stealInv_def)

lemma maxList_props:
  "(findPartitionToSteal_maxList opm = [] \<or> findPartitionToSteal_maxList opm \<in> set (Map_values opm)) \<and>
   (\<forall>l\<in>set (Map_values opm). length l \<le> length (findPartitionToSteal_maxList opm))"
  using steal_fold[OF stealInv_init, of "Map_values opm"]
  by (auto simp: findPartitionToSteal_maxList_def)

lemma maxList_mem:
  "l \<in> set (Map_values opm) \<Longrightarrow> l \<noteq> [] \<Longrightarrow>
   findPartitionToSteal_maxList opm \<in> set (Map_values opm) \<and> findPartitionToSteal_maxList opm \<noteq> []"
  using maxList_props[of opm] by (cases "findPartitionToSteal_maxList opm") force+

lemma randomIndex_less: "0 < n \<Longrightarrow> randomIndex r n < n"
  by (simp add: randomIndex_def)

lemma Array_get_randomIndex:
  "xs \<noteq> [] \<Longrightarrow> \<exists>x \<in> set xs. Array_get xs (randomIndex r (length xs)) = Some x"
  by (simp add: Array_get_def randomIndex_less)

lemma findPartitionToSteal_ok:
  assumes "l \<in> set (Map_values opm)" "l \<noteq> []"
  shows "\<exists>po \<in> set (findPartitionToSteal_maxList opm).
           findPartitionToSteal r opm = Inr (partitionId po)"
proof -
  have "findPartitionToSteal_maxList opm \<noteq> []" using maxList_mem[OF assms] by simp
  from Array_get_randomIndex[OF this, of r] show ?thesis
    by (auto simp: findPartitionToSteal_def Let_def)
qed

text \<open>The lists held in the owner map.\<close>

lemma opm_values:
  "l \<in> set (Map_values (ownerPartitionMapOf this a)) \<longleftrightarrow>
     (\<exists>k. (k \<in> ownerId ` snd ` set a \<or> k = Some (this_ownerId this)) \<and>
          l = filter (\<lambda>po. ownerId po = k) (map snd a))"
proof -
  have "l \<in> set (Map_values (ownerPartitionMapOf this a)) \<longleftrightarrow>
        (\<exists>k. (k, l) \<in> set (ownerPartitionMapOf this a))"
    by (force simp: Map_values_def)
  also have "\<dots> \<longleftrightarrow> (\<exists>k. map_of (ownerPartitionMapOf this a) k = Some l)"
    using opm_distinct[of this a] by (metis map_of_SomeD map_of_is_SomeI)
  also have "\<dots> \<longleftrightarrow> (\<exists>k. (k \<in> ownerId ` snd ` set a \<or> k = Some (this_ownerId this)) \<and>
          l = filter (\<lambda>po. ownerId po = k) (map snd a))"
    unfolding opm_map_of by (metis option.distinct(1) option.inject)
  finally show ?thesis .
qed

lemma opm_has_nonempty:
  assumes "a \<noteq> []"
  shows "\<exists>l \<in> set (Map_values (ownerPartitionMapOf this a)). l \<noteq> []"
proof -
  from assms obtain e where e: "e \<in> set a" by (cases a) auto
  let ?l = "filter (\<lambda>po. ownerId po = ownerId (snd e)) (map snd a)"
  have "?l \<in> set (Map_values (ownerPartitionMapOf this a))"
    unfolding opm_values using e by blast
  moreover have "?l \<noteq> []" using e by (auto simp: filter_empty_conv)
  ultimately show ?thesis by blast
qed

subsection \<open>The branches of \<open>Fair_loadBalance\<close>\<close>

lemma opm_get_self:
  "Map_get (ownerPartitionMapOf this a) (Some (this_ownerId this)) = Some (ownedBy (this_ownerId this) a)"
  by (simp add: Map_get_def opm_map_of ownedBy_def Map_values_def)

lemma shouldOwnMore_eq:
  "shouldOwnMorePartitions this m cands (ownerPartitionMapOf this a) =
     Inr (length (ownedBy (this_ownerId this) a) < m \<or>
          (length a < length cands \<and> length (ownedBy (this_ownerId this) a) < m + 1))"
  by (simp add: shouldOwnMorePartitions_def opm_get_self sumOfPartitionsOwned_eq opm_sum Let_def)

lemma Map_size_0: "Map_size m = 0 \<longleftrightarrow> m = []"
  by (simp add: Map_size_def)

lemma loadBalance_bootstrap:
  "removeInactivePartitionOwnerships this now ledger = [] \<Longrightarrow>
   Fair_loadBalance this now r ledger cands = Inr [Array_get cands (randomIndex r (length cands))]"
  by (simp add: Fair_loadBalance_def Map_size_0)

lemma loadBalance_balanced:
  assumes "removeInactivePartitionOwnerships this now ledger = a" "a \<noteq> []"
    and "opm = ownerPartitionMapOf this a"
    and "isLoadBalanced (length cands div Map_size opm) (length cands mod Map_size opm) opm"
  shows "Fair_loadBalance this now r ledger cands = Inr []"
  using assms by (simp add: Fair_loadBalance_def Map_size_0 Let_def)

lemma loadBalance_enough:
  assumes "removeInactivePartitionOwnerships this now ledger = a" "a \<noteq> []"
    and "opm = ownerPartitionMapOf this a"
    and "\<not> length (ownedBy (this_ownerId this) a) < length cands div Map_size opm"
    and "\<not> (length a < length cands \<and> length (ownedBy (this_ownerId this) a) < length cands div Map_size opm + 1)"
  shows "Fair_loadBalance this now r ledger cands = Inr []"
proof -
  have "shouldOwnMorePartitions this (length cands div Map_size opm) cands opm = Inr False"
    unfolding assms(3) shouldOwnMore_eq using assms(4,5) unfolding assms(3) by simp
  then show ?thesis using assms(1,2,3) by (simp add: Fair_loadBalance_def Map_size_0 Let_def)
qed

lemma loadBalance_claim:
  assumes "removeInactivePartitionOwnerships this now ledger = a" "a \<noteq> []"
    and "opm = ownerPartitionMapOf this a"
    and "\<not> isLoadBalanced (length cands div Map_size opm) (length cands mod Map_size opm) opm"
    and "length (ownedBy (this_ownerId this) a) < length cands div Map_size opm \<or>
         (length a < length cands \<and> length (ownedBy (this_ownerId this) a) < length cands div Map_size opm + 1)"
    and "un = filter (\<lambda>pid. \<not> Map_has a pid) cands" "un \<noteq> []"
  shows "Fair_loadBalance this now r ledger cands = Inr [Some (un ! (r mod length un))]"
proof -
  have "shouldOwnMorePartitions this (length cands div Map_size opm) cands opm = Inr True"
    unfolding assms(3) shouldOwnMore_eq using assms(5) unfolding assms(3) by simp
  then show ?thesis using assms(1,2,3,4,6,7)
    by (simp add: Fair_loadBalance_def Map_size_0 Let_def Array_get_def randomIndex_def)
qed

lemma loadBalance_steal:
  assumes "removeInactivePartitionOwnerships this now ledger = a" "a \<noteq> []"
    and "opm = ownerPartitionMapOf this a"
    and "\<not> isLoadBalanced (length cands div Map_size opm) (length cands mod Map_size opm) opm"
    and "length (ownedBy (this_ownerId this) a) < length cands div Map_size opm \<or>
         (length a < length cands \<and> length (ownedBy (this_ownerId this) a) < length cands div Map_size opm + 1)"
    and "filter (\<lambda>pid. \<not> Map_has a pid) cands = []"
  shows "\<exists>po \<in> set (findPartitionToSteal_maxList opm).
           Fair_loadBalance this now r ledger cands = Inr [Some (partitionId po)]"
proof -
  from opm_has_nonempty[OF assms(2), of this] obtain l
    where "l \<in> set (Map_values opm)" "l \<noteq> []" using assms(3) by blast
  from findPartitionToSteal_ok[OF this, of r] obtain po
    where "po \<in> set (findPartitionToSteal_maxList opm)" "findPartitionToSteal r opm = Inr (partitionId po)"
    by blast
  moreover have "shouldOwnMorePartitions this (length cands div Map_size opm) cands opm = Inr True"
    unfolding assms(3) shouldOwnMore_eq using assms(5) unfolding assms(3) by simp
  ultimately show ?thesis using assms(1,2,3,4,6)
    by (auto simp add: Fair_loadBalance_def Map_size_0 Let_def)
qed

lemma loadBalance_cases:
  assumes a_def: "a = removeInactivePartitionOwnerships this now ledger"
    and opm_def: "opm = ownerPartitionMapOf this a"
    and res_def: "res = Fair_loadBalance this now r ledger cands"
  shows "(a = [] \<and> res = Inr [Array_get cands (randomIndex r (length cands))]) \<or>
         (a \<noteq> [] \<and> res = Inr []) \<or>
         (a \<noteq> [] \<and> (\<exists>p \<in> set cands. \<not> Map_has a p \<and> res = Inr [Some p])) \<or>
         (a \<noteq> [] \<and> (\<forall>p \<in> set cands. Map_has a p) \<and>
            (\<exists>po \<in> set (findPartitionToSteal_maxList opm). res = Inr [Some (partitionId po)]))"
proof (cases "a = []")
  case True
  then show ?thesis unfolding res_def a_def by (simp add: loadBalance_bootstrap)
next
  case ne: False
  let ?P = "length cands" and ?C = "Map_size opm"
  let ?own = "length (ownedBy (this_ownerId this) a)"
  show ?thesis
  proof (cases "isLoadBalanced (?P div ?C) (?P mod ?C) opm")
    case True
    from loadBalance_balanced[OF a_def[symmetric] ne opm_def True, of r] show ?thesis
      unfolding res_def using ne by simp
  next
    case nb: False
    show ?thesis
    proof (cases "?own < ?P div ?C \<or> (length a < ?P \<and> ?own < ?P div ?C + 1)")
      case False
      then have "\<not> ?own < ?P div ?C" "\<not> (length a < ?P \<and> ?own < ?P div ?C + 1)" by auto
      from loadBalance_enough[OF a_def[symmetric] ne opm_def this, of r] show ?thesis
        unfolding res_def using ne by simp
    next
      case so: True
      define un where "un = filter (\<lambda>pid. \<not> Map_has a pid) cands"
      show ?thesis
      proof (cases "un = []")
        case True
        then have all: "\<forall>p \<in> set cands. Map_has a p" by (auto simp: un_def filter_empty_conv)
        from loadBalance_steal[OF a_def[symmetric] ne opm_def nb so True[unfolded un_def], of r]
        show ?thesis unfolding res_def using ne all by blast
      next
        case False
        then have "un ! (r mod length un) \<in> set un" by simp
        then have "un ! (r mod length un) \<in> set cands" "\<not> Map_has a (un ! (r mod length un))"
          by (auto simp: un_def)
        moreover from loadBalance_claim[OF a_def[symmetric] ne opm_def nb so un_def False, of r]
        have "res = Inr [Some (un ! (r mod length un))]" unfolding res_def .
        ultimately show ?thesis using ne by blast
      qed
    qed
  qed
qed

lemma loadBalance_never_throws: "\<exists>xs. Fair_loadBalance this now r ledger cands = Inr xs"
  using loadBalance_cases[OF refl refl refl, of this now ledger r cands] by blast

subsection \<open>Facts about the steal branch\<close>

lemma opm_size_self_absent:
  assumes "Some (this_ownerId this) \<notin> ownerId ` snd ` set a"
  shows "Map_size (ownerPartitionMapOf this a) = card (ownerId ` snd ` set a) + 1"
  using assms by (simp add: opm_size)

lemma maxList_in_active:
  assumes "po \<in> set (findPartitionToSteal_maxList (ownerPartitionMapOf this a))"
  shows "po \<in> snd ` set a"
proof -
  let ?ml = "findPartitionToSteal_maxList (ownerPartitionMapOf this a)"
  have "?ml \<noteq> []" using assms by auto
  then have "?ml \<in> set (Map_values (ownerPartitionMapOf this a))"
    using maxList_props[of "ownerPartitionMapOf this a"] by blast
  then obtain k where "?ml = filter (\<lambda>po. ownerId po = k) (map snd a)"
    unfolding opm_values by blast
  then show ?thesis using assms by auto
qed

lemma not_balanced_short:
  "l \<in> set (Map_values opm) \<Longrightarrow> length l < m \<Longrightarrow> \<not> isLoadBalanced m x opm"
proof
  assume l: "l \<in> set (Map_values opm)" "length l < m" and "isLoadBalanced m x opm"
  then have "\<forall>l \<in> set (Map_values opm). m \<le> length l"
    by (simp add: isLoadBalanced_iff list_all_iff)
  with l show False by fastforce
qed

lemma self_list_in_values:
  "ownedBy (this_ownerId this) a \<in> set (Map_values (ownerPartitionMapOf this a))"
proof -
  have "\<exists>k. (k \<in> ownerId ` snd ` set a \<or> k = Some (this_ownerId this)) \<and>
          ownedBy (this_ownerId this) a = filter (\<lambda>po. ownerId po = k) (map snd a)"
    by (rule exI[of _ "Some (this_ownerId this)"]) (simp add: ownedBy_def Map_values_def)
  then show ?thesis by (simp only: opm_values)
qed

lemma sum_list_length_le:
  "\<forall>l \<in> set ls. length l \<le> M \<Longrightarrow> sum_list (map length ls) \<le> length ls * M"
  by (induction ls) auto

lemma length_active_le_size_times_max:
  "length a \<le> Map_size (ownerPartitionMapOf this a) *
               length (findPartitionToSteal_maxList (ownerPartitionMapOf this a))"
proof -
  let ?opm = "ownerPartitionMapOf this a"
  have "length a = sum_list (map length (Map_values ?opm))"
    using opm_sum[of this a] by (simp add: Map_values_def comp_def)
  also have "\<dots> \<le> length (Map_values ?opm) * length (findPartitionToSteal_maxList ?opm)"
    by (rule sum_list_length_le) (use maxList_props[of ?opm] in blast)
  finally show ?thesis by (simp add: Map_size_def Map_values_def)
qed

lemma candidates_le_active:
  assumes "distinct cands" "\<forall>p \<in> set cands. Map_has a p"
  shows "length cands \<le> length a"
proof -
  have "set cands \<subseteq> set (map fst a)" using assms(2) by (auto simp: Map_has_iff)
  then have "card (set cands) \<le> card (set (map fst a))" by (intro card_mono) auto
  also have "\<dots> \<le> length (map fst a)" by (rule card_length)
  finally show ?thesis using assms(1) by (simp add: distinct_card)
qed

subsection \<open>The balance check and the predicate of the specification\<close>

lemma isLoadBalanced_balancedView:
  "isLoadBalanced (P div Map_size opm) (P mod Map_size opm) opm \<longleftrightarrow> balancedView P opm"
  by (simp add: isLoadBalanced_iff balancedView_def Map_values_def Map_size_def list_all_iff
      filter_map comp_def)

lemma opm_Nil: "ownerPartitionMapOf this [] = [(Some (this_ownerId this), [])]"
  by (simp add: ownerPartitionMapOf_def groupByOwner_def Map_values_def Map_has_def)

lemma balanced_returns_empty:
  assumes "balancedView (length cands)
             (ownerPartitionMapOf this (removeInactivePartitionOwnerships this now ledger))"
    and "removeInactivePartitionOwnerships this now ledger \<noteq> [] \<or> cands \<noteq> []"
  shows "Fair_loadBalance this now r ledger cands = Inr []"
proof (cases "removeInactivePartitionOwnerships this now ledger = []")
  case True
  then have "0 < length cands" using assms(2) by simp
  then have False using assms(1) True by (simp add: balancedView_def opm_Nil)
  then show ?thesis ..
next
  case False
  show ?thesis
    by (rule loadBalance_balanced[OF refl False refl])
       (simp add: isLoadBalanced_balancedView assms(1))
qed

lemma empty_candidates_not_bootstrap:
  assumes "removeInactivePartitionOwnerships this now ledger \<noteq> []"
  shows "Fair_loadBalance this now r ledger [] = Inr []"
proof (cases "isLoadBalanced
    (length ([]::string list) div
       Map_size (ownerPartitionMapOf this (removeInactivePartitionOwnerships this now ledger)))
    (length ([]::string list) mod
       Map_size (ownerPartitionMapOf this (removeInactivePartitionOwnerships this now ledger)))
    (ownerPartitionMapOf this (removeInactivePartitionOwnerships this now ledger))")
  case True
  from loadBalance_balanced[OF refl assms refl True] show ?thesis .
next
  case False
  show ?thesis by (rule loadBalance_enough[OF refl assms refl]) simp_all
qed

lemma bootstrap_index_in_range:
  "cands \<noteq> [] \<Longrightarrow> randomIndex r (length cands) < length cands"
  by (simp add: randomIndex_def)

lemma bootstrap_no_candidates:
  "removeInactivePartitionOwnerships this now ledger = [] \<Longrightarrow>
   Fair_loadBalance this now r ledger [] = Inr [None]"
  by (simp add: loadBalance_bootstrap Array_get_def)

lemma malformed_record_inactive:
  "lastModifiedTimeInMS po = None \<or> ownerId po = None \<Longrightarrow> \<not> isActive this now po"
  by (auto simp: isActive_def split: option.splits)

lemma steal_target_nonempty:
  assumes "a \<noteq> []"
  shows "findPartitionToSteal_maxList (ownerPartitionMapOf this a) \<noteq> []"
proof -
  from opm_has_nonempty[OF assms, of this] obtain l
    where "l \<in> set (Map_values (ownerPartitionMapOf this a))" "l \<noteq> []" by blast
  from maxList_mem[OF this] show ?thesis by simp
qed

subsection \<open>Evaluating the steal target\<close>

lemma steal_fold_maxListFrom:
  "stealInv st \<Longrightarrow> fst (fold findPartitionToSteal_step ls st) = maxListFrom (fst st) ls"
proof (induction ls arbitrary: st)
  case Nil then show ?case by simp
next
  case (Cons l ls)
  define st' where "st' = findPartitionToSteal_step l st"
  from steal_step_cases[OF Cons.prems, of l]
  have inv': "stealInv st'"
    and c: "(fst st' = fst st \<and> length l \<le> length (fst st)) \<or>
            (fst st' = l \<and> length (fst st) \<le> length l)"
    unfolding st'_def by blast+
  have "fst st' = (if length (fst st) < length l then l else fst st)"
  proof (cases "length (fst st) < length l")
    case True then show ?thesis using c by auto
  next
    case False
    have "fst st' = fst st"
    proof (cases "fst st = []")
      case True
      then have "l = []" using False by simp
      then show ?thesis using c True by auto
    next
      case ne: False
      then have s: "snd st = of_nat (length (fst st))" using Cons.prems by (auto simp: stealInv_def)
      show ?thesis using False by (simp add: st'_def findPartitionToSteal_step_def s)
    qed
    then show ?thesis using False by simp
  qed
  moreover have "fst (fold findPartitionToSteal_step (l # ls) st) = maxListFrom (fst st') ls"
    using Cons.IH[OF inv'] by (simp add: st'_def)
  ultimately show ?case by simp
qed

lemma findPartitionToSteal_maxList_code [code]:
  "findPartitionToSteal_maxList ownerPartitionMap = maxListFrom [] (Map_values ownerPartitionMap)"
  using steal_fold_maxListFrom[OF stealInv_init, of "Map_values ownerPartitionMap"]
  by (simp add: findPartitionToSteal_maxList_def)

section \<open>The simulated caller loop\<close>

subsection \<open>Balance and the number of active records\<close>

lemma sum_length_bounds:
  "list_all (\<lambda>l. m \<le> length l \<and> length l \<le> m + 1) ls \<Longrightarrow>
   sum_list (map length ls) = length ls * m + length (filter (\<lambda>l. length l = m + 1) ls)"
  by (induction ls) auto

lemma balanced_iff_bounds_and_total:
  assumes opm_def: "opm = ownerPartitionMapOf this a"
  shows "isLoadBalanced (P div Map_size opm) (P mod Map_size opm) opm \<longleftrightarrow>
     list_all (\<lambda>l. P div Map_size opm \<le> length l \<and> length l \<le> P div Map_size opm + 1)
       (Map_values opm) \<and> length a = P"
proof -
  let ?C = "Map_size opm" and ?ls = "Map_values opm"
  have sum: "sum_list (map length ?ls) = length a"
    using opm_sum[of this a] by (simp add: opm_def Map_values_def comp_def)
  have len: "length ?ls = ?C" by (simp add: Map_values_def Map_size_def)
  have Cpos: "0 < ?C" unfolding opm_def by (rule opm_size_pos)
  show ?thesis
  proof (cases "list_all (\<lambda>l. P div ?C \<le> length l \<and> length l \<le> P div ?C + 1) ?ls")
    case False
    then show ?thesis by (simp add: isLoadBalanced_iff)
  next
    case True
    from sum_length_bounds[OF True]
    have eq: "length a = ?C * (P div ?C) + length (filter (\<lambda>l. length l = P div ?C + 1) ?ls)"
      using sum len by simp
    have "length (filter (\<lambda>l. length l = P div ?C + 1) ?ls) = P mod ?C \<longleftrightarrow> length a = P"
    proof
      assume "length (filter (\<lambda>l. length l = P div ?C + 1) ?ls) = P mod ?C"
      then show "length a = P" using eq mult_div_mod_eq[of ?C P] by linarith
    next
      assume "length a = P"
      then show "length (filter (\<lambda>l. length l = P div ?C + 1) ?ls) = P mod ?C"
        using eq mult_div_mod_eq[of ?C P] by linarith
    qed
    then show ?thesis using True by (simp add: isLoadBalanced_iff)
  qed
qed

subsection \<open>One call of the simulation\<close>

lemma isActive_claimRecord:
  "isActive (FairPartitionLoadBalancer_new caller limit) now (claimRecord oid now pid)
     \<longleftrightarrow> now \<noteq> 0 \<and> 0 < limit \<and> oid \<noteq> []"
  by (simp add: isActive_def claimRecord_def FairPartitionLoadBalancer_new_def)

lemma wf_all_active:
  assumes "wfLedger now cands insts L" "0 < limit" "now \<noteq> 0" "\<forall>oid \<in> set insts. oid \<noteq> []"
  shows "removeInactivePartitionOwnerships (FairPartitionLoadBalancer_new caller limit) now L = L"
proof -
  have d: "distinct (map fst L)" using assms(1) by (simp add: wfLedger_def)
  have "\<forall>e \<in> set L. isActive (FairPartitionLoadBalancer_new caller limit) now (snd e)"
  proof
    fix e assume "e \<in> set L"
    then obtain oid where "oid \<in> set insts" "snd e = claimRecord oid now (fst e)"
      using assms(1) unfolding wfLedger_def by blast
    then show "isActive (FairPartitionLoadBalancer_new caller limit) now (snd e)"
      using assms(2,3,4) by (simp add: isActive_claimRecord)
  qed
  then show ?thesis by (simp add: removeInactive_filter[OF d])
qed

lemma wf_owners_subset:
  assumes "wfLedger now cands insts L"
  shows "ownerId ` snd ` set L \<subseteq> Some ` set insts"
proof
  fix x assume "x \<in> ownerId ` snd ` set L"
  then obtain e where e: "e \<in> set L" "x = ownerId (snd e)" by auto
  then obtain oid where "oid \<in> set insts" "snd e = claimRecord oid now (fst e)"
    using assms unfolding wfLedger_def by blast
  then show "x \<in> Some ` set insts" using e(2) by (simp add: claimRecord_def)
qed

lemma wf_size_le:
  assumes "wfLedger now cands insts L" "caller \<in> set insts"
  shows "Map_size (ownerPartitionMapOf (FairPartitionLoadBalancer_new caller limit) L) \<le> length insts"
proof -
  have "insert (Some caller) (ownerId ` snd ` set L) \<subseteq> Some ` set insts"
    using wf_owners_subset[OF assms(1)] assms(2) by auto
  then have "card (insert (Some caller) (ownerId ` snd ` set L)) \<le> card (Some ` set insts)"
    by (intro card_mono) auto
  also have "\<dots> \<le> length insts" by (metis card_image_le card_length le_trans List.finite_set)
  finally show ?thesis by (simp add: opm_size FairPartitionLoadBalancer_new_def)
qed

lemma unowned_exists:
  assumes "distinct cands" "length L < length cands"
  shows "filter (\<lambda>pid. \<not> Map_has L pid) cands \<noteq> []"
proof
  assume "filter (\<lambda>pid. \<not> Map_has L pid) cands = []"
  then have "\<forall>p \<in> set cands. Map_has L p" by (simp add: filter_empty_conv)
  from candidates_le_active[OF assms(1) this] show False using assms(2) by simp
qed

lemma mid_call_claims:
  assumes wf: "wfLedger now cands insts L" and mid: "midInv cands insts s D L"
    and dc: "distinct cands"
    and lim: "0 < limit" and now: "now \<noteq> 0" and ids: "\<forall>oid \<in> set insts. oid \<noteq> []"
    and caller: "caller \<in> set insts" "caller \<notin> D"
  shows "\<exists>p \<in> set cands. p \<notin> fst ` set L \<and>
           Fair_loadBalance (FairPartitionLoadBalancer_new caller limit) now r L cands = Inr [Some p]"
proof -
  let ?lb = "FairPartitionLoadBalancer_new caller limit"
  let ?C = "length insts"
  have Cpos: "0 < ?C" using caller(1) by (cases insts) auto
  have a: "removeInactivePartitionOwnerships ?lb now L = L"
    by (rule wf_all_active[OF wf lim now ids])
  have k: "length L < length cands" and len: "length L = ?C * s + card D"
    using mid by (simp_all add: midInv_def)
  show ?thesis
  proof (cases "L = []")
    case True
    have P: "0 < length cands" using k by (cases cands) auto
    have "Fair_loadBalance ?lb now r L cands = Inr [Some (cands ! (r mod length cands))]"
      using loadBalance_bootstrap[of ?lb now L r cands] a True P
      by (simp add: Array_get_def randomIndex_def)
    moreover have "cands ! (r mod length cands) \<in> set cands" using P by simp
    ultimately show ?thesis using True by auto
  next
    case False
    let ?opm = "ownerPartitionMapOf ?lb L"
    let ?own = "ownedBy (this_ownerId ?lb) L"
    have own: "length ?own = s"
      using mid caller by (simp add: midInv_def FairPartitionLoadBalancer_new_def)
    have Cle: "Map_size ?opm \<le> ?C" by (rule wf_size_le[OF wf caller(1)])
    have C'pos: "0 < Map_size ?opm" by (rule opm_size_pos)
    have "s = (?C * s) div ?C" using Cpos by simp
    also have "\<dots> \<le> length cands div ?C" using k len by (intro div_le_mono) simp
    also have "\<dots> \<le> length cands div Map_size ?opm" using C'pos Cle by (rule div_le_mono2)
    finally have so: "length ?own < length cands div Map_size ?opm \<or>
         (length L < length cands \<and> length ?own < length cands div Map_size ?opm + 1)"
      using own k by auto
    have nb: "\<not> isLoadBalanced (length cands div Map_size ?opm) (length cands mod Map_size ?opm) ?opm"
      using balanced_iff_bounds_and_total[OF refl, of "length cands" ?lb L] k by simp
    define un where "un = filter (\<lambda>pid. \<not> Map_has L pid) cands"
    have une: "un \<noteq> []" unfolding un_def using dc k by (intro unowned_exists) auto
    from loadBalance_claim[OF a False refl nb so un_def une, of r]
    have "Fair_loadBalance ?lb now r L cands = Inr [Some (un ! (r mod length un))]" .
    moreover have "un ! (r mod length un) \<in> set un" using une by simp
    then have "un ! (r mod length un) \<in> set cands" "un ! (r mod length un) \<notin> fst ` set L"
      by (auto simp: un_def Map_has_iff)
    ultimately show ?thesis by blast
  qed
qed

lemma persistClaims_single:
  "p \<notin> fst ` set L \<Longrightarrow> persistClaims oid now [Some p] L = L @ [(p, claimRecord oid now p)]"
  by (simp add: persistClaims_def Map_set_absent)

lemma persistClaims_Nil: "persistClaims oid now [] L = L"
  by (simp add: persistClaims_def)

lemma ownedBy_append:
  "ownedBy oid (L @ [(p, claimRecord caller now p)]) =
     ownedBy oid L @ (if caller = oid then [claimRecord caller now p] else [])"
  by (simp add: ownedBy_def Map_values_def claimRecord_def)

lemma wf_append:
  assumes "wfLedger now cands insts L" "p \<in> set cands" "p \<notin> fst ` set L" "caller \<in> set insts"
  shows "wfLedger now cands insts (L @ [(p, claimRecord caller now p)])"
  using assms unfolding wfLedger_def by auto

lemma div_add_small: "(r::nat) < c \<Longrightarrow> (c * s + r) div c = s"
  by (cases "c = 0") simp_all

lemma mid_step:
  assumes mid: "midInv cands insts s D L" and di: "distinct insts"
    and caller: "caller \<in> set insts" "caller \<notin> D"
  shows "midInv cands insts s (insert caller D) (L @ [(p, claimRecord caller now p)]) \<or>
         fullInv cands insts (L @ [(p, claimRecord caller now p)])"
proof -
  let ?C = "length insts" and ?P = "length cands"
  let ?L' = "L @ [(p, claimRecord caller now p)]"
  let ?D' = "insert caller D"
  have k: "length L < ?P" and D: "D \<subseteq> set insts" and len: "length L = ?C * s + card D"
    and cnt: "\<forall>oid \<in> set insts. length (ownedBy oid L) = (if oid \<in> D then s + 1 else s)"
    using mid by (simp_all add: midInv_def)
  have finD: "finite D" using D by (rule finite_subset) simp
  have D': "?D' \<subseteq> set insts" using D caller(1) by simp
  have cardD': "card ?D' = card D + 1" using finD caller(2) by simp
  have len': "length ?L' = ?C * s + card ?D'" using len cardD' by simp
  have cnt': "\<forall>oid \<in> set insts. length (ownedBy oid ?L') = (if oid \<in> ?D' then s + 1 else s)"
    using cnt caller by (auto simp: ownedBy_append)
  show ?thesis
  proof (cases "length ?L' < ?P")
    case True
    then show ?thesis using D' len' cnt' unfolding midInv_def by blast
  next
    case False
    then have P: "?P = ?C * s + card ?D'" using k len' by simp
    have cle: "card ?D' \<le> ?C"
      using card_mono[OF _ D'] di by (simp add: distinct_card)
    have "?P div ?C \<le> length (ownedBy oid ?L') \<and> length (ownedBy oid ?L') \<le> ?P div ?C + 1"
      if oid: "oid \<in> set insts" for oid
    proof (cases "card ?D' = ?C")
      case True
      then have "?D' = set insts"
        using D' di by (metis card_subset_eq distinct_card List.finite_set)
      then have c1: "length (ownedBy oid ?L') = s + 1" using cnt' oid by simp
      have "?P = ?C * (s + 1)" using P True by simp
      moreover have "0 < ?C" using oid by (cases insts) auto
      ultimately have "?P div ?C = s + 1" by (metis nonzero_mult_div_cancel_left less_numeral_extra(3))
      then show ?thesis using c1 by simp
    next
      case False
      then have "card ?D' < ?C" using cle by simp
      then have "?P div ?C = s" unfolding P by (rule div_add_small)
      then show ?thesis using cnt' oid by auto
    qed
    then show ?thesis using P len' unfolding fullInv_def by simp
  qed
qed

subsection \<open>The state in which every candidate is owned\<close>

lemma length_split_zero_one:
  "\<forall>e \<in> set xs. f e \<le> (1::nat) \<Longrightarrow>
   length xs = sum_list (map f xs) + length (filter (\<lambda>e. f e = 0) xs)"
  by (induction xs) auto

lemma filter_key_le_one:
  "distinct (map fst xs) \<Longrightarrow> length (filter (\<lambda>e. fst e = k) xs) \<le> 1"
proof (induction xs)
  case Nil then show ?case by simp
next
  case (Cons x xs)
  show ?case
  proof (cases "fst x = k")
    case True
    then have "k \<notin> fst ` set xs" using Cons.prems by auto
    then have "filter (\<lambda>e. fst e = k) xs = []" by (auto simp: filter_empty_conv)
    then show ?thesis using True by simp
  next
    case False
    then show ?thesis using Cons by simp
  qed
qed

lemma filter_length_mono:
  "\<forall>e \<in> set xs. P e \<longrightarrow> Q e \<Longrightarrow> length (filter P xs) \<le> length (filter Q xs)"
  by (induction xs) auto

lemma ownedBy_nonempty_iff:
  "ownedBy oid L \<noteq> [] \<longleftrightarrow> Some oid \<in> ownerId ` snd ` set L"
  by (force simp: ownedBy_def Map_values_def filter_empty_conv)

lemma opm_entry:
  assumes "e \<in> set (ownerPartitionMapOf this a)"
  shows "(fst e \<in> ownerId ` snd ` set a \<or> fst e = Some (this_ownerId this)) \<and>
         snd e = filter (\<lambda>po. ownerId po = fst e) (map snd a)"
proof -
  have "map_of (ownerPartitionMapOf this a) (fst e) = Some (snd e)"
    using assms opm_distinct[of this a] by simp
  then show ?thesis unfolding opm_map_of by (auto split: if_splits)
qed

lemma full_bounds:
  assumes wf: "wfLedger now cands insts L" and full: "fullInv cands insts L"
    and di: "distinct insts" and ne: "insts \<noteq> []" and cne: "cands \<noteq> []"
    and cin: "caller \<in> set insts"
    and opm: "opm = ownerPartitionMapOf (FairPartitionLoadBalancer_new caller limit) L"
  shows "list_all (\<lambda>l. length cands div Map_size opm \<le> length l \<and>
                       length l \<le> length cands div Map_size opm + 1) (Map_values opm)"
proof -
  let ?P = "length cands" and ?C = "length insts"
  let ?q = "?P div ?C"
  have Cpos: "0 < ?C" using ne by simp
  have Ppos: "0 < ?P" using cne by simp
  have len: "length L = ?P" using full by (simp add: fullInv_def)
  have cnt: "?q \<le> length (ownedBy oid L) \<and> length (ownedBy oid L) \<le> ?q + 1"
    if "oid \<in> set insts" for oid
    using full that unfolding fullInv_def by blast
  have self: "this_ownerId (FairPartitionLoadBalancer_new caller limit) = caller"
    by (simp add: FairPartitionLoadBalancer_new_def)
  have entry: "\<exists>oid \<in> set insts. fst e = Some oid \<and> snd e = ownedBy oid L \<and>
                 (oid \<noteq> caller \<longrightarrow> ownedBy oid L \<noteq> [])"
    if "e \<in> set opm" for e
  proof -
    from opm_entry[OF that[unfolded opm]]
    have k: "fst e \<in> ownerId ` snd ` set L \<or> fst e = Some caller"
      and v: "snd e = filter (\<lambda>po. ownerId po = fst e) (map snd L)" by (simp_all add: self)
    from k wf_owners_subset[OF wf] cin obtain oid where oid: "oid \<in> set insts" "fst e = Some oid"
      by auto
    have "snd e = ownedBy oid L" using v oid(2) by (simp add: ownedBy_def Map_values_def)
    moreover have "ownedBy oid L \<noteq> []" if "oid \<noteq> caller"
    proof -
      have "Some oid \<in> ownerId ` snd ` set L" using k oid(2) that by auto
      then show ?thesis by (simp add: ownedBy_nonempty_iff)
    qed
    ultimately show ?thesis using oid by blast
  qed
  have sz: "Map_size opm = card (insert (Some caller) (ownerId ` snd ` set L))"
    unfolding opm by (simp add: opm_size self)
  have sum: "sum_list (map (\<lambda>e. length (snd e)) opm) = ?P"
    unfolding opm using opm_sum[of "FairPartitionLoadBalancer_new caller limit" L] len by simp
  show ?thesis
  proof (cases "0 < ?q")
    case True
    have "Some ` set insts \<subseteq> ownerId ` snd ` set L"
    proof
      fix x assume "x \<in> Some ` set insts"
      then obtain oid where oid: "oid \<in> set insts" "x = Some oid" by auto
      then have "ownedBy oid L \<noteq> []" using cnt[OF oid(1)] True by auto
      then show "x \<in> ownerId ` snd ` set L"
        using oid(2) by (simp add: ownedBy_nonempty_iff)
    qed
    then have "insert (Some caller) (ownerId ` snd ` set L) = Some ` set insts"
      using wf_owners_subset[OF wf] cin by auto
    then have "Map_size opm = ?C"
      using sz di by (simp add: card_image distinct_card)
    then show ?thesis
      unfolding list_all_iff Map_values_def using entry cnt by fastforce
  next
    case False
    then have q0: "?q = 0" by simp
    have le1: "\<forall>e \<in> set opm. length (snd e) \<le> 1"
      using entry cnt q0 by fastforce
    have split: "Map_size opm = ?P + length (filter (\<lambda>e. length (snd e) = 0) opm)"
      using length_split_zero_one[OF le1] sum by (simp add: Map_size_def)
    have z: "length (filter (\<lambda>e. length (snd e) = 0) opm) \<le> 1"
    proof -
      have "\<forall>e \<in> set opm. length (snd e) = 0 \<longrightarrow> fst e = Some caller"
        using entry by fastforce
      from filter_length_mono[OF this]
      have "length (filter (\<lambda>e. length (snd e) = 0) opm) \<le> length (filter (\<lambda>e. fst e = Some caller) opm)" .
      also have "\<dots> \<le> 1"
        by (rule filter_key_le_one) (simp add: opm opm_distinct)
      finally show ?thesis .
    qed
    show ?thesis
    proof (cases "filter (\<lambda>e. length (snd e) = 0) opm = []")
      case True
      then have "Map_size opm = ?P" using split by simp
      then have m: "?P div Map_size opm = 1" using Ppos by simp
      have "\<forall>e \<in> set opm. length (snd e) \<noteq> 0" using True by (auto simp: filter_empty_conv)
      then have "\<forall>e \<in> set opm. length (snd e) = 1" using le1
        by (metis One_nat_def le_Suc_eq le_zero_eq)
      then show ?thesis unfolding list_all_iff Map_values_def m by auto
    next
      case False
      then have "length (filter (\<lambda>e. length (snd e) = 0) opm) = 1"
        using z by (cases "filter (\<lambda>e. length (snd e) = 0) opm") auto
      then have "Map_size opm = ?P + 1" using split by simp
      then have m: "?P div Map_size opm = 0" by simp
      show ?thesis unfolding list_all_iff Map_values_def m using le1 by auto
    qed
  qed
qed

lemma full_balanced:
  assumes wf: "wfLedger now cands insts L" and full: "fullInv cands insts L"
    and di: "distinct insts" and ne: "insts \<noteq> []" and cne: "cands \<noteq> []"
    and lim: "0 < limit" and now: "now \<noteq> 0" and ids: "\<forall>oid \<in> set insts. oid \<noteq> []"
    and cin: "caller \<in> set insts"
  shows "balancedFor limit now cands L caller"
proof -
  let ?lb = "FairPartitionLoadBalancer_new caller limit"
  let ?opm = "ownerPartitionMapOf ?lb L"
  have a: "removeInactivePartitionOwnerships ?lb now L = L"
    by (rule wf_all_active[OF wf lim now ids])
  have len: "length L = length cands" using full by (simp add: fullInv_def)
  have "isLoadBalanced (length cands div Map_size ?opm) (length cands mod Map_size ?opm) ?opm"
    unfolding balanced_iff_bounds_and_total[OF refl]
    using full_bounds[OF wf full di ne cne cin refl, of limit] len by simp
  then show ?thesis
    by (simp add: balancedFor_def a isLoadBalanced_balancedView)
qed

lemma simRound_no_claim:
  "Fair_loadBalance (FairPartitionLoadBalancer_new oid limit) now r L cands = Inr [] \<Longrightarrow>
   simRound limit now cands (oid, r) L = L"
  by (simp add: simRound_def persistClaims_Nil)

lemma simulate_stable:
  assumes "\<forall>oid \<in> set insts. \<forall>r.
             Fair_loadBalance (FairPartitionLoadBalancer_new oid limit) now r L cands = Inr []"
  shows "fst ` set later \<subseteq> set insts \<Longrightarrow> simulate limit now cands later L = L"
proof (induction later)
  case Nil
  show ?case by (simp add: simulate_def)
next
  case (Cons c later)
  have "fst c \<in> set insts" using Cons.prems by simp
  then have "simRound limit now cands c L = L"
    using assms simRound_no_claim[of "fst c" limit now "snd c" L cands] by simp
  moreover have "simulate limit now cands (c # later) L
                 = simulate limit now cands later (simRound limit now cands c L)"
    by (simp add: simulate_def)
  ultimately show ?case using Cons by simp
qed

subsection \<open>Rounds\<close>

lemma simulate_Cons:
  "simulate limit now cands (c # cs) L = simulate limit now cands cs (simRound limit now cands c L)"
  by (simp add: simulate_def)

lemma simulate_append:
  "simulate limit now cands (xs @ ys) L = simulate limit now cands ys (simulate limit now cands xs L)"
  by (simp add: simulate_def)

lemma full_returns_empty:
  assumes wf: "wfLedger now cands insts L" and full: "fullInv cands insts L"
    and di: "distinct insts" and ne: "insts \<noteq> []" and cne: "cands \<noteq> []"
    and lim: "0 < limit" and now: "now \<noteq> 0" and ids: "\<forall>oid \<in> set insts. oid \<noteq> []"
    and cin: "caller \<in> set insts"
  shows "Fair_loadBalance (FairPartitionLoadBalancer_new caller limit) now r L cands = Inr []"
  by (rule balanced_returns_empty)
     (use full_balanced[OF wf full di ne cne lim now ids cin] cne in \<open>simp_all add: balancedFor_def\<close>)

lemma wf_Nil: "wfLedger now cands insts []"
  by (simp add: wfLedger_def)

lemma mid_Nil: "cands \<noteq> [] \<Longrightarrow> midInv cands insts 0 {} []"
  by (simp add: midInv_def ownedBy_def Map_values_def)

lemma run_calls:
  assumes dc: "distinct cands" and di: "distinct insts" and ne: "insts \<noteq> []" and cne: "cands \<noteq> []"
    and lim: "0 < limit" and now: "now \<noteq> 0" and ids: "\<forall>oid \<in> set insts. oid \<noteq> []"
  shows "wfLedger now cands insts L \<Longrightarrow> midInv cands insts s D L \<or> fullInv cands insts L \<Longrightarrow>
         distinct (map fst cs) \<Longrightarrow> set (map fst cs) \<subseteq> set insts - D \<Longrightarrow>
         wfLedger now cands insts (simulate limit now cands cs L) \<and>
         (midInv cands insts s (D \<union> set (map fst cs)) (simulate limit now cands cs L) \<or>
          fullInv cands insts (simulate limit now cands cs L)) \<and>
         length (simulate limit now cands cs L) = min (length cands) (length L + length cs)"
proof (induction cs arbitrary: D L)
  case Nil
  have "length L \<le> length cands" using Nil.prems(2) by (auto simp: midInv_def fullInv_def)
  then have "length L = min (length cands) (length L + length ([]::(string \<times> nat) list))" by simp
  moreover have "simulate limit now cands [] L = L" by (simp add: simulate_def)
  ultimately show ?case using Nil.prems(1,2) by simp
next
  case (Cons c cs)
  let ?D' = "insert (fst c) D"
  have cin: "fst c \<in> set insts" "fst c \<notin> D" using Cons.prems(4) by auto
  have dcs: "distinct (map fst cs)" using Cons.prems(3) by simp
  have nin: "fst c \<notin> set (map fst cs)" using Cons.prems(3) by simp
  have "set (map fst cs) \<subseteq> set insts - D" using Cons.prems(4) by simp
  then have sub: "set (map fst cs) \<subseteq> set insts - ?D'" using nin by blast
  have Deq: "D \<union> set (map fst (c # cs)) = ?D' \<union> set (map fst cs)" by simp
  show ?case
  proof (cases "fullInv cands insts L")
    case True
    have "Fair_loadBalance (FairPartitionLoadBalancer_new (fst c) limit) now (snd c) L cands = Inr []"
      by (rule full_returns_empty[OF Cons.prems(1) True di ne cne lim now ids cin(1)])
    then have st: "simRound limit now cands c L = L"
      using simRound_no_claim[of "fst c" limit now "snd c" L cands] by simp
    have len: "length L = length cands" using True by (simp add: fullInv_def)
    have inv0: "midInv cands insts s ?D' L \<or> fullInv cands insts L" using True by simp
    note ih = Cons.IH[OF Cons.prems(1) inv0 dcs sub]
    have l: "min (length cands) (length L + length cs) = min (length cands) (length L + length (c # cs))"
      using len by simp
    show ?thesis unfolding simulate_Cons st Deq using ih unfolding l .
  next
    case False
    then have mid: "midInv cands insts s D L" using Cons.prems(2) by simp
    from mid_call_claims[OF Cons.prems(1) mid dc lim now ids cin, of "snd c"]
    obtain p where p: "p \<in> set cands" "p \<notin> fst ` set L"
      "Fair_loadBalance (FairPartitionLoadBalancer_new (fst c) limit) now (snd c) L cands = Inr [Some p]"
      by blast
    let ?L' = "L @ [(p, claimRecord (fst c) now p)]"
    have st: "simRound limit now cands c L = ?L'"
      using p(3) by (simp add: simRound_def persistClaims_single[OF p(2)])
    have wf': "wfLedger now cands insts ?L'"
      by (rule wf_append[OF Cons.prems(1) p(1,2) cin(1)])
    have inv': "midInv cands insts s ?D' ?L' \<or> fullInv cands insts ?L'"
      by (rule mid_step[OF mid di cin])
    have k: "length L < length cands" using mid by (simp add: midInv_def)
    note ih = Cons.IH[OF wf' inv' dcs sub]
    have l: "min (length cands) (length ?L' + length cs) = min (length cands) (length L + length (c # cs))"
      by simp
    show ?thesis unfolding simulate_Cons st Deq using ih unfolding l .
  qed
qed

lemma run_round:
  assumes dc: "distinct cands" and di: "distinct insts" and ne: "insts \<noteq> []" and cne: "cands \<noteq> []"
    and lim: "0 < limit" and now: "now \<noteq> 0" and ids: "\<forall>oid \<in> set insts. oid \<noteq> []"
    and wf: "wfLedger now cands insts L"
    and inv: "midInv cands insts s {} L \<or> fullInv cands insts L"
    and rnd: "distinct (map fst rnd)" "set (map fst rnd) = set insts"
  shows "wfLedger now cands insts (simulate limit now cands rnd L) \<and>
         (midInv cands insts (s + 1) {} (simulate limit now cands rnd L) \<or>
          fullInv cands insts (simulate limit now cands rnd L)) \<and>
         length (simulate limit now cands rnd L) = min (length cands) (length L + length rnd)"
proof -
  let ?L' = "simulate limit now cands rnd L"
  have sub: "set (map fst rnd) \<subseteq> set insts - {}" using rnd(2) by simp
  from run_calls[OF dc di ne cne lim now ids wf inv rnd(1) sub]
  have wf': "wfLedger now cands insts ?L'"
    and inv': "midInv cands insts s (set insts) ?L' \<or> fullInv cands insts ?L'"
    and len': "length ?L' = min (length cands) (length L + length rnd)"
    using rnd(2) by simp_all
  have "midInv cands insts (s + 1) {} ?L'" if "midInv cands insts s (set insts) ?L'"
    using that di by (simp add: midInv_def distinct_card)
  then show ?thesis using wf' inv' len' by blast
qed

lemma run_rounds:
  assumes dc: "distinct cands" and di: "distinct insts" and ne: "insts \<noteq> []" and cne: "cands \<noteq> []"
    and lim: "0 < limit" and now: "now \<noteq> 0" and ids: "\<forall>oid \<in> set insts. oid \<noteq> []"
  shows "wfLedger now cands insts L \<Longrightarrow> midInv cands insts s {} L \<or> fullInv cands insts L \<Longrightarrow>
         \<forall>rnd \<in> set rounds. distinct (map fst rnd) \<and> set (map fst rnd) = set insts \<Longrightarrow>
         wfLedger now cands insts (simulate limit now cands (concat rounds) L) \<and>
         ((\<exists>s'. midInv cands insts s' {} (simulate limit now cands (concat rounds) L)) \<or>
          fullInv cands insts (simulate limit now cands (concat rounds) L)) \<and>
         length (simulate limit now cands (concat rounds) L)
           = min (length cands) (length L + length (concat rounds))"
proof (induction rounds arbitrary: s L)
  case Nil
  have "length L \<le> length cands" using Nil.prems(2) by (auto simp: midInv_def fullInv_def)
  then have l: "length L = min (length cands) (length L + length (concat ([]::(string \<times> nat) list list)))"
    by simp
  have e: "simulate limit now cands (concat []) L = L" by (simp add: simulate_def)
  show ?case unfolding e using Nil.prems(1,2) l by blast
next
  case (Cons rnd rounds)
  let ?L' = "simulate limit now cands rnd L"
  have rnd: "distinct (map fst rnd)" "set (map fst rnd) = set insts" using Cons.prems(3) by auto
  from run_round[OF dc di ne cne lim now ids Cons.prems(1,2) rnd]
  have wf': "wfLedger now cands insts ?L'"
    and inv': "midInv cands insts (s + 1) {} ?L' \<or> fullInv cands insts ?L'"
    and len': "length ?L' = min (length cands) (length L + length rnd)" by simp_all
  have rest: "\<forall>rnd \<in> set rounds. distinct (map fst rnd) \<and> set (map fst rnd) = set insts"
    using Cons.prems(3) by simp
  note ih = Cons.IH[OF wf' inv' rest]
  have l: "min (length cands) (length ?L' + length (concat rounds))
           = min (length cands) (length L + length (concat (rnd # rounds)))"
    unfolding len' by simp
  have e: "simulate limit now cands (concat (rnd # rounds)) L
           = simulate limit now cands (concat rounds) ?L'"
    by (simp add: simulate_append)
  show ?case unfolding e using ih unfolding l .
qed

lemma length_concat_rounds:
  assumes "distinct insts"
    and "\<forall>rnd \<in> set rounds. distinct (map fst rnd) \<and> set (map fst rnd) = set insts"
  shows "length (concat rounds) = length rounds * length insts"
  using assms(2)
proof (induction rounds)
  case Nil
  show ?case by simp
next
  case (Cons rnd rounds)
  have "distinct (map fst rnd)" "set (map fst rnd) = set insts" using Cons.prems by auto
  then have "length (map fst rnd) = length insts"
    using assms(1) by (metis distinct_card)
  then show ?case using Cons by simp
qed

text \<open>
  When the calls are not organised in rounds, the simulation can come to rest in a
  state that is not balanced. Five candidates, three instances, calls in the order \<open>A, A, A, B, C\<close>: the
  ledger is \<open>A: 3, B: 1, C: 1\<close>, balanced in no instance's view at any time, and from
  then on every call of every instance returns the empty list. (The comment of
  \<^verbatim>\<open>_shouldOwnMorePartitions\<close> says an owner at the minimum with no owner below it
  should own more; the code asks in addition that some partition be unowned.)
\<close>

lemma stuck_unbalanced_state:
  "list_all (\<lambda>n. list_all (\<lambda>oid.
       \<not> balancedFor 30 100 [''0'', ''1'', ''2'', ''3'', ''4'']
           (simulate 30 100 [''0'', ''1'', ''2'', ''3'', ''4'']
              (take n [(''A'', 0), (''A'', 0), (''A'', 0), (''B'', 0), (''C'', 0)]) []) oid)
       [''A'', ''B'', ''C'']) [0..<6] \<and>
   (\<forall>oid \<in> set [''A'', ''B'', ''C'']. \<forall>r.
      Fair_loadBalance (FairPartitionLoadBalancer_new oid 30) 100 r
        (simulate 30 100 [''0'', ''1'', ''2'', ''3'', ''4'']
           [(''A'', 0), (''A'', 0), (''A'', 0), (''B'', 0), (''C'', 0)] [])
        [''0'', ''1'', ''2'', ''3'', ''4''] = Inr [])"
proof (rule conjI)
  show "list_all (\<lambda>n. list_all (\<lambda>oid.
       \<not> balancedFor 30 100 [''0'', ''1'', ''2'', ''3'', ''4'']
           (simulate 30 100 [''0'', ''1'', ''2'', ''3'', ''4'']
              (take n [(''A'', 0), (''A'', 0), (''A'', 0), (''B'', 0), (''C'', 0)]) []) oid)
       [''A'', ''B'', ''C'']) [0..<6]"
    by code_simp
next
  have L: "simulate 30 100 [''0'', ''1'', ''2'', ''3'', ''4'']
           [(''A'', 0), (''A'', 0), (''A'', 0), (''B'', 0), (''C'', 0)] []
        = [mkOwnership ''0'' ''A'' 100, mkOwnership ''1'' ''A'' 100, mkOwnership ''2'' ''A'' 100,
           mkOwnership ''3'' ''B'' 100, mkOwnership ''4'' ''C'' 100]"
    by code_simp
  have "Fair_loadBalance (FairPartitionLoadBalancer_new oid 30) 100 r
        [mkOwnership ''0'' ''A'' 100, mkOwnership ''1'' ''A'' 100, mkOwnership ''2'' ''A'' 100,
           mkOwnership ''3'' ''B'' 100, mkOwnership ''4'' ''C'' 100]
        [''0'', ''1'', ''2'', ''3'', ''4''] = Inr []"
    if "oid \<in> set [''A'', ''B'', ''C'']" for oid r
  proof -
    from that consider "oid = ''A''" | "oid = ''B''" | "oid = ''C''" by auto
    then show ?thesis
    proof cases
      case 1 show ?thesis unfolding 1 by code_simp
    next
      case 2 show ?thesis unfolding 2 by code_simp
    next
      case 3 show ?thesis unfolding 3 by code_simp
    qed
  qed
  then show "\<forall>oid \<in> set [''A'', ''B'', ''C'']. \<forall>r.
      Fair_loadBalance (FairPartitionLoadBalancer_new oid 30) 100 r
        (simulate 30 100 [''0'', ''1'', ''2'', ''3'', ''4'']
           [(''A'', 0), (''A'', 0), (''A'', 0), (''B'', 0), (''C'', 0)] [])
        [''0'', ''1'', ''2'', ''3'', ''4''] = Inr []"
    unfolding L by blast
qed

section \<open>A caller that owns nothing\<close>

lemma Fair_loadBalance_steps:
  assumes "a = removeInactivePartitionOwnerships this now ledger" "a \<noteq> []"
  shows "Fair_loadBalance this now r ledger cands =
           balanceAndClaim this r a cands (ownerPartitionMapOf this a)
             (length cands div Map_size (ownerPartitionMapOf this a))
             (length cands mod Map_size (ownerPartitionMapOf this a))"
  using assms by (simp add: Fair_loadBalance_def balanceAndClaim_def Map_size_0 Let_def)

lemma card_owners_le: "card (ownerId ` snd ` set a) \<le> length a"
proof -
  have "card (ownerId ` snd ` set a) \<le> card (set a)"
    by (simp add: image_image card_image_le)
  also have "\<dots> \<le> length a" by (rule card_length)
  finally show ?thesis .
qed

lemma nothing_owned_empty_iff:
  assumes a: "a = removeInactivePartitionOwnerships this now ledger" "a \<noteq> []"
    and none: "\<forall>e \<in> set a. ownerId (snd e) \<noteq> Some (this_ownerId this)"
  shows "Fair_loadBalance this now r ledger cands = Inr [] \<longleftrightarrow>
           length cands div (card (ownerId ` snd ` set a) + 1) = 0"
proof -
  let ?opm = "ownerPartitionMapOf this a"
  let ?n = "card (ownerId ` snd ` set a)"
  let ?P = "length cands"
  have notin: "Some (this_ownerId this) \<notin> ownerId ` snd ` set a" using none by auto
  have C: "Map_size ?opm = ?n + 1" by (rule opm_size_self_absent[OF notin])
  have own: "ownedBy (this_ownerId this) a = []"
    using none by (auto simp: ownedBy_def Map_values_def filter_empty_conv)
  show ?thesis
  proof (cases "?P div (?n + 1) = 0")
    case True
    then have "?P < ?n + 1" by (simp add: div_eq_0_iff)
    then have le: "?P \<le> length a" using card_owners_le[of a] by simp
    have "Fair_loadBalance this now r ledger cands = Inr []"
    proof (cases "isLoadBalanced (?P div Map_size ?opm) (?P mod Map_size ?opm) ?opm")
      case True
      from loadBalance_balanced[OF a(1)[symmetric] a(2) refl True] show ?thesis .
    next
      case False
      show ?thesis
        by (rule loadBalance_enough[OF a(1)[symmetric] a(2) refl])
           (use True le C own in simp_all)
    qed
    then show ?thesis using True by simp
  next
    case False
    then have min: "0 < ?P div Map_size ?opm" using C by simp
    have nb: "\<not> isLoadBalanced (?P div Map_size ?opm) (?P mod Map_size ?opm) ?opm"
      by (rule not_balanced_short[OF self_list_in_values]) (simp add: own min)
    have so: "length (ownedBy (this_ownerId this) a) < ?P div Map_size ?opm \<or>
       (length a < ?P \<and> length (ownedBy (this_ownerId this) a) < ?P div Map_size ?opm + 1)"
      using own min by simp
    have "Fair_loadBalance this now r ledger cands \<noteq> Inr []"
    proof (cases "filter (\<lambda>pid. \<not> Map_has a pid) cands = []")
      case True
      from loadBalance_steal[OF a(1)[symmetric] a(2) refl nb so True, of r]
      show ?thesis by auto
    next
      case False
      from loadBalance_claim[OF a(1)[symmetric] a(2) refl nb so refl False, of r]
      show ?thesis by simp
    qed
    then show ?thesis using False by simp
  qed
qed

lemma single_other_owner_steal:
  assumes a: "a = removeInactivePartitionOwnerships this now ledger" "a \<noteq> []"
    and none: "\<forall>e \<in> set a. ownerId (snd e) \<noteq> Some (this_ownerId this)"
    and hyp: "(\<forall>e \<in> set a. ownerId (snd e) = Some other) \<and> (\<forall>p \<in> set cands. Map_has a p) \<and>
          2 \<le> length cands"
  shows "card (ownerId ` snd ` set a) + 1 = 2 \<and>
          (\<exists>e \<in> set a. ownerId (snd e) = Some other \<and>
             Fair_loadBalance this now r ledger cands = Inr [Some (partitionId (snd e))])"
proof -
  from hyp have all: "\<forall>e \<in> set a. ownerId (snd e) = Some other"
    and owned: "\<forall>p \<in> set cands. Map_has a p" and P: "2 \<le> length cands" by blast+
  let ?opm = "ownerPartitionMapOf this a"
  have notin: "Some (this_ownerId this) \<notin> ownerId ` snd ` set a" using none by auto
  have "ownerId ` snd ` set a = {Some other}" using all a(2) by (cases a) auto
  then have C: "Map_size ?opm = 2" using opm_size_self_absent[OF notin] by simp
  have own: "ownedBy (this_ownerId this) a = []"
    using none by (auto simp: ownedBy_def Map_values_def filter_empty_conv)
  have min: "0 < length cands div 2" using P by simp
  have nb: "\<not> isLoadBalanced (length cands div Map_size ?opm) (length cands mod Map_size ?opm) ?opm"
    by (rule not_balanced_short[OF self_list_in_values]) (simp add: own C min)
  have so: "length (ownedBy (this_ownerId this) a) < length cands div Map_size ?opm \<or>
       (length a < length cands \<and> length (ownedBy (this_ownerId this) a) < length cands div Map_size ?opm + 1)"
    using own min C by simp
  have un: "filter (\<lambda>pid. \<not> Map_has a pid) cands = []"
    using owned by (simp add: filter_empty_conv)
  from loadBalance_steal[OF a(1)[symmetric] a(2) refl nb so un, of r]
  obtain po where po: "po \<in> set (findPartitionToSteal_maxList ?opm)"
    "Fair_loadBalance this now r ledger cands = Inr [Some (partitionId po)]" by blast
  from maxList_in_active[OF po(1)] obtain e where "e \<in> set a" "snd e = po" by auto
  then show ?thesis using C po(2) all opm_size_self_absent[OF notin] by auto
qed

section \<open>The claims\<close>

text \<open>
  C1 (idempotence of the balanced state): whenever the owner view of a call (inactive
  records pruned, the caller added with an empty list) satisfies the balanced predicate
  for \<open>P\<close> candidates and \<open>C\<close> owners, \<^verbatim>\<open>loadBalance\<close> returns the empty list.
  The code does so on every call except one: with an empty ledger and no candidate
  partition the view \<open>{caller: []}\<close> is balanced (\<open>P = 0\<close>, \<open>C = 1\<close>), yet the bootstrap
  branch runs first and returns the one-element array \<^verbatim>\<open>[undefined]\<close>. The theorem
  evaluates the code at that input; \<open>balanced_returns_empty\<close> is the claim on all
  other inputs.
\<close>

theorem balanced_view_bootstrap_no_candidates:
  "balancedView (length ([]::string list))
     (ownerPartitionMapOf this (removeInactivePartitionOwnerships this now [])) \<and>
   Fair_loadBalance this now r [] [] \<noteq> Inr []"
  by (simp add: balancedView_def opm_Nil removeInactivePartitionOwnerships_def
      Fair_loadBalance_def Map_size_def)

text \<open>
  C2 (single claim per round): \<^verbatim>\<open>loadBalance\<close> always returns an array, of at most
  one element; in the bootstrap path (no active record) the array has exactly one
  element.
\<close>

theorem loadBalance_at_most_one_claim:
  "\<exists>claims. Fair_loadBalance this now r ledger cands = Inr claims \<and> length claims \<le> 1 \<and>
     (removeInactivePartitionOwnerships this now ledger = [] \<longrightarrow> length claims = 1)"
  using loadBalance_cases[OF refl refl refl, of this now ledger r cands] by auto

theorem loadBalance_at_most_one_claim_witness:
  "removeInactivePartitionOwnerships (FairPartitionLoadBalancer_new ''A'' 30) 100 [] = [] \<and>
   (\<exists>claims. Fair_loadBalance (FairPartitionLoadBalancer_new ''A'' 30) 100 0 [] [''0'', ''1'']
               = Inr claims \<and> length claims \<le> 1 \<and> length claims = 1)"
  using loadBalance_at_most_one_claim[of "FairPartitionLoadBalancer_new ''A'' 30" 100 0 "[]"
      "[''0'', ''1'']"]
  by (simp add: removeInactivePartitionOwnerships_def)

text \<open>
  C3 (convergence): the instances call in rounds; in each round every instance calls
  once, in any order, and the order may change from round to round; a last round may be
  unfinished. The owner ids are distinct and not empty, the \<open>P \<ge> 1\<close> candidate ids are
  distinct and every record stays fresh. Starting from the empty ledger, whatever the
  random draws, as soon as the rounds hold at least \<open>P\<close> calls (so after \<open>P\<close> rounds
  at the latest) the ledger is balanced in every instance's view, every later call of
  any instance returns the empty list and leaves the ledger as it is, all \<open>P\<close>
  candidates are owned and every instance holds \<open>P div C\<close> or \<open>P div C + 1\<close> of them
  (for \<open>P = 4\<close>, \<open>C = 3\<close>: 1, 1 and 2).
\<close>

theorem rounds_converge:
  assumes lim: "0 < limit" and now: "now \<noteq> 0"
    and di: "distinct insts" and ne: "insts \<noteq> []" and ids: "\<forall>oid \<in> set insts. oid \<noteq> []"
    and dc: "distinct cands" and cne: "cands \<noteq> []"
    and rounds: "\<forall>rnd \<in> set rounds. distinct (map fst rnd) \<and> set (map fst rnd) = set insts"
    and lastRound: "distinct (map fst lastRound)" "set (map fst lastRound) \<subseteq> set insts"
    and enough: "length cands \<le> length rounds * length insts + length lastRound"
    and L: "L = simulate limit now cands (concat rounds @ lastRound) []"
  shows "(\<forall>oid \<in> set insts. balancedFor limit now cands L oid) \<and>
         (\<forall>oid \<in> set insts. \<forall>r.
            Fair_loadBalance (FairPartitionLoadBalancer_new oid limit) now r L cands = Inr []) \<and>
         (\<forall>later. fst ` set later \<subseteq> set insts \<longrightarrow> simulate limit now cands later L = L) \<and>
         length L = length cands \<and>
         (\<forall>oid \<in> set insts.
            length cands div length insts \<le> length (ownedBy oid L) \<and>
            length (ownedBy oid L) \<le> length cands div length insts + 1)"
proof -
  let ?L1 = "simulate limit now cands (concat rounds) []"
  from run_rounds[OF dc di ne cne lim now ids wf_Nil _ rounds, of 0] mid_Nil[OF cne]
  have wf1: "wfLedger now cands insts ?L1"
    and inv1: "(\<exists>s. midInv cands insts s {} ?L1) \<or> fullInv cands insts ?L1"
    and len1: "length ?L1 = min (length cands) (length (concat rounds))"
    by simp_all
  from inv1 obtain s where inv1': "midInv cands insts s {} ?L1 \<or> fullInv cands insts ?L1"
    by blast
  have sub: "set (map fst lastRound) \<subseteq> set insts - {}" using lastRound(2) by simp
  have Leq: "L = simulate limit now cands lastRound ?L1" unfolding L by (rule simulate_append)
  from run_calls[OF dc di ne cne lim now ids wf1 inv1' lastRound(1) sub]
  have wf: "wfLedger now cands insts L"
    and inv: "midInv cands insts s ({} \<union> set (map fst lastRound)) L \<or> fullInv cands insts L"
    and len: "length L = min (length cands) (length ?L1 + length lastRound)"
    unfolding Leq by simp_all
  have "length (concat rounds) = length rounds * length insts"
    by (rule length_concat_rounds[OF di rounds])
  then have lenP: "length L = length cands" using len len1 enough by simp
  then have full: "fullInv cands insts L" using inv by (auto simp: midInv_def)
  have bal: "balancedFor limit now cands L oid" if "oid \<in> set insts" for oid
    by (rule full_balanced[OF wf full di ne cne lim now ids that])
  have empty: "Fair_loadBalance (FairPartitionLoadBalancer_new oid limit) now r L cands = Inr []"
    if "oid \<in> set insts" for oid r
    by (rule full_returns_empty[OF wf full di ne cne lim now ids that])
  have stable: "simulate limit now cands later L = L" if "fst ` set later \<subseteq> set insts" for later
    by (rule simulate_stable[OF _ that]) (use empty in blast)
  have dist: "\<forall>oid \<in> set insts.
            length cands div length insts \<le> length (ownedBy oid L) \<and>
            length (ownedBy oid L) \<le> length cands div length insts + 1"
    using full unfolding fullInv_def by blast
  show ?thesis using bal empty stable lenP dist by blast
qed

theorem rounds_converge_witness:
  "balancedFor 30 100 [''0'', ''1'', ''2'', ''3'']
     (simulate 30 100 [''0'', ''1'', ''2'', ''3'']
        (concat [[(''B'', 1), (''A'', 0), (''C'', 2)], [(''C'', 0), (''B'', 3), (''A'', 1)]] @ []) [])
     ''A'' \<and>
   balancedFor 30 100 [''0'', ''1'', ''2'', ''3'']
     (simulate 30 100 [''0'', ''1'', ''2'', ''3'']
        (concat [[(''B'', 1), (''A'', 0), (''C'', 2)], [(''C'', 0), (''B'', 3), (''A'', 1)]] @ []) [])
     ''B'' \<and>
   balancedFor 30 100 [''0'', ''1'', ''2'', ''3'']
     (simulate 30 100 [''0'', ''1'', ''2'', ''3'']
        (concat [[(''B'', 1), (''A'', 0), (''C'', 2)], [(''C'', 0), (''B'', 3), (''A'', 1)]] @ []) [])
     ''C'' \<and>
   Fair_loadBalance (FairPartitionLoadBalancer_new ''B'' 30) 100 7
     (simulate 30 100 [''0'', ''1'', ''2'', ''3'']
        (concat [[(''B'', 1), (''A'', 0), (''C'', 2)], [(''C'', 0), (''B'', 3), (''A'', 1)]] @ []) [])
     [''0'', ''1'', ''2'', ''3''] = Inr [] \<and>
   simulate 30 100 [''0'', ''1'', ''2'', ''3''] [(''C'', 1), (''A'', 2), (''B'', 3)]
     (simulate 30 100 [''0'', ''1'', ''2'', ''3'']
        (concat [[(''B'', 1), (''A'', 0), (''C'', 2)], [(''C'', 0), (''B'', 3), (''A'', 1)]] @ []) [])
   = simulate 30 100 [''0'', ''1'', ''2'', ''3'']
        (concat [[(''B'', 1), (''A'', 0), (''C'', 2)], [(''C'', 0), (''B'', 3), (''A'', 1)]] @ []) [] \<and>
   map (\<lambda>oid. length (ownedBy oid
        (simulate 30 100 [''0'', ''1'', ''2'', ''3'']
           (concat [[(''B'', 1), (''A'', 0), (''C'', 2)], [(''C'', 0), (''B'', 3), (''A'', 1)]] @ []) [])))
     [''A'', ''B'', ''C''] = [1, 1, 2]"
proof -
  let ?rounds = "[[(''B'', 1::nat), (''A'', 0), (''C'', 2)], [(''C'', 0), (''B'', 3), (''A'', 1)]]"
  let ?L = "simulate 30 100 [''0'', ''1'', ''2'', ''3''] (concat ?rounds @ []) []"
  have h: "(0::int) < 30" "(100::int) \<noteq> 0" "distinct [''A'', ''B'', ''C'']"
    "[''A'', ''B'', ''C''] \<noteq> []" "\<forall>oid \<in> set [''A'', ''B'', ''C'']. oid \<noteq> []"
    "distinct [''0'', ''1'', ''2'', ''3'']" "[''0'', ''1'', ''2'', ''3''] \<noteq> []"
    by simp_all
  have r: "\<forall>rnd \<in> set ?rounds. distinct (map fst rnd) \<and> set (map fst rnd) = set [''A'', ''B'', ''C'']"
    by auto
  have l: "distinct (map fst ([]::(string \<times> nat) list))"
    "set (map fst ([]::(string \<times> nat) list)) \<subseteq> set [''A'', ''B'', ''C'']"
    by simp_all
  have e: "length [''0'', ''1'', ''2'', ''3'']
           \<le> length ?rounds * length [''A'', ''B'', ''C''] + length ([]::(string \<times> nat) list)"
    by simp
  note conv = rounds_converge[OF h r l e refl]
  have bal: "balancedFor 30 100 [''0'', ''1'', ''2'', ''3''] ?L ''A''"
    "balancedFor 30 100 [''0'', ''1'', ''2'', ''3''] ?L ''B''"
    "balancedFor 30 100 [''0'', ''1'', ''2'', ''3''] ?L ''C''"
    using conv by simp_all
  have empty: "Fair_loadBalance (FairPartitionLoadBalancer_new ''B'' 30) 100 7 ?L
     [''0'', ''1'', ''2'', ''3''] = Inr []"
    using conv by simp
  have "fst ` set [(''C'', 1::nat), (''A'', 2), (''B'', 3)] \<subseteq> set [''A'', ''B'', ''C'']"
    by simp
  then have stable: "simulate 30 100 [''0'', ''1'', ''2'', ''3''] [(''C'', 1), (''A'', 2), (''B'', 3)] ?L = ?L"
    using conv by blast
  have dist: "map (\<lambda>oid. length (ownedBy oid ?L)) [''A'', ''B'', ''C''] = [1, 1, 2]"
    by code_simp
  show ?thesis using bal empty stable dist by blast
qed

text \<open>
  C4 (stale reclaim): a ledger entry whose \<^verbatim>\<open>lastModifiedTimeInMS\<close> is missing,
  zero or at least the inactivity limit old, or whose \<^verbatim>\<open>ownerId\<close> is missing or empty, is
  treated as an absent entry: with the same clock and the same draw, \<^verbatim>\<open>loadBalance\<close>
  returns what it returns on the ledger without the entry, the pruned views are the same,
  and the partition is not in the active view (so a candidate of that id is unowned for
  every caller).
\<close>

theorem stale_entry_as_absent:
  assumes "lastModifiedTimeInMS po = None \<or> lastModifiedTimeInMS po = Some 0 \<or>
           (\<exists>t. lastModifiedTimeInMS po = Some t \<and> now - t \<ge> this_inactiveTimeLimitInMS this) \<or>
           ownerId po = None \<or> ownerId po = Some []"
  shows "Fair_loadBalance this now r (before @ (pid, po) # after) cands
           = Fair_loadBalance this now r (before @ after) cands \<and>
         removeInactivePartitionOwnerships this now (before @ (pid, po) # after)
           = removeInactivePartitionOwnerships this now (before @ after) \<and>
         (pid \<notin> fst ` set (before @ after) \<longrightarrow>
            \<not> Map_has (removeInactivePartitionOwnerships this now (before @ (pid, po) # after)) pid)"
proof -
  have na: "\<not> isActive this now po"
    using assms by (auto simp: isActive_def split: option.splits)
  have eq: "removeInactivePartitionOwnerships this now (before @ (pid, po) # after)
           = removeInactivePartitionOwnerships this now (before @ after)"
    by (rule removeInactive_skip[OF na])
  have "Fair_loadBalance this now r (before @ (pid, po) # after) cands
           = Fair_loadBalance this now r (before @ after) cands"
    by (simp only: Fair_loadBalance_def eq)
  moreover have "\<not> Map_has (removeInactivePartitionOwnerships this now (before @ (pid, po) # after)) pid"
    if "pid \<notin> fst ` set (before @ after)"
    unfolding eq Map_has_iff removeInactive_keys using that by auto
  ultimately show ?thesis using eq by blast
qed

theorem stale_entry_as_absent_witness:
  "Fair_loadBalance (FairPartitionLoadBalancer_new ''A'' 30000) 100000 0
      ([] @ mkOwnership ''0'' ''X'' 40000 # []) [''0'', ''1'']
    = Fair_loadBalance (FairPartitionLoadBalancer_new ''A'' 30000) 100000 0 ([] @ []) [''0'', ''1'']
   \<and> \<not> Map_has (removeInactivePartitionOwnerships (FairPartitionLoadBalancer_new ''A'' 30000) 100000
          ([] @ mkOwnership ''0'' ''X'' 40000 # [])) ''0''"
proof -
  have h: "lastModifiedTimeInMS (snd (mkOwnership ''0'' ''X'' 40000)) = None \<or>
           lastModifiedTimeInMS (snd (mkOwnership ''0'' ''X'' 40000)) = Some 0 \<or>
           (\<exists>t. lastModifiedTimeInMS (snd (mkOwnership ''0'' ''X'' 40000)) = Some t \<and>
             100000 - t \<ge> this_inactiveTimeLimitInMS (FairPartitionLoadBalancer_new ''A'' 30000)) \<or>
           ownerId (snd (mkOwnership ''0'' ''X'' 40000)) = None \<or>
           ownerId (snd (mkOwnership ''0'' ''X'' 40000)) = Some []"
    by (simp add: mkOwnership_def FairPartitionLoadBalancer_new_def)
  from stale_entry_as_absent[OF h, where r = 0 and before = "[]" and pid = "''0''"
      and after = "[]" and cands = "[''0'', ''1'']"]
  show ?thesis by (simp add: mkOwnership_def removeInactivePartitionOwnerships_def Map_has_def)
qed

text \<open>
  C5 (no over-claiming): in a call that is not a bootstrap call, a caller whose list in
  the owner map holds at least \<open>minPartitionsPerEventProcessor + 1\<close> records gets the
  empty list.
\<close>

theorem no_claim_above_fair_share:
  assumes "removeInactivePartitionOwnerships this now ledger \<noteq> []"
    and "Map_get (ownerPartitionMapOf this (removeInactivePartitionOwnerships this now ledger))
           (Some (this_ownerId this)) = Some owned"
    and "length cands div
           Map_size (ownerPartitionMapOf this (removeInactivePartitionOwnerships this now ledger)) + 1
         \<le> length owned"
  shows "Fair_loadBalance this now r ledger cands = Inr []"
proof -
  let ?a = "removeInactivePartitionOwnerships this now ledger"
  have o: "owned = ownedBy (this_ownerId this) ?a" using assms(2) by (simp add: opm_get_self)
  show ?thesis
  proof (cases "isLoadBalanced (length cands div Map_size (ownerPartitionMapOf this ?a))
                  (length cands mod Map_size (ownerPartitionMapOf this ?a)) (ownerPartitionMapOf this ?a)")
    case True
    from loadBalance_balanced[OF refl assms(1) refl True] show ?thesis .
  next
    case False
    show ?thesis
      by (rule loadBalance_enough[OF refl assms(1) refl]) (use assms(3) o in auto)
  qed
qed

theorem no_claim_above_fair_share_witness:
  "Fair_loadBalance (FairPartitionLoadBalancer_new ''A'' 30) 100 0
     [mkOwnership ''0'' ''A'' 90, mkOwnership ''1'' ''A'' 90, mkOwnership ''2'' ''A'' 90,
      mkOwnership ''3'' ''B'' 90]
     [''0'', ''1'', ''2'', ''3'', ''4'']
   = Inr []"
proof -
  let ?lb = "FairPartitionLoadBalancer_new ''A'' 30"
  let ?ledger = "[mkOwnership ''0'' ''A'' 90, mkOwnership ''1'' ''A'' 90,
                  mkOwnership ''2'' ''A'' 90, mkOwnership ''3'' ''B'' 90]"
  let ?owned = "[snd (mkOwnership ''0'' ''A'' 90), snd (mkOwnership ''1'' ''A'' 90),
                 snd (mkOwnership ''2'' ''A'' 90)]"
  have h1: "removeInactivePartitionOwnerships ?lb 100 ?ledger \<noteq> []"
    by code_simp
  have h2: "Map_get (ownerPartitionMapOf ?lb (removeInactivePartitionOwnerships ?lb 100 ?ledger))
           (Some (this_ownerId ?lb)) = Some ?owned"
    by code_simp
  have h3: "length [''0'', ''1'', ''2'', ''3'', ''4''] div
           Map_size (ownerPartitionMapOf ?lb (removeInactivePartitionOwnerships ?lb 100 ?ledger)) + 1
         \<le> length ?owned"
    by code_simp
  show ?thesis by (rule no_claim_above_fair_share[OF h1 h2 h3])
qed

text \<open>
  C6 (no candidate partitions): the specification asks for the empty list whenever
  \<^verbatim>\<open>candidatePartitions\<close> is empty. In the bootstrap path the code indexes the empty
  array and returns \<^verbatim>\<open>[undefined]\<close>, an array of length one, here at the empty
  ledger (\<open>bootstrap_no_candidates\<close> for any ledger without an active record).
  Outside the bootstrap path the result is the empty list
  (\<open>empty_candidates_not_bootstrap\<close>).
\<close>

theorem bootstrap_no_candidates_returns_undefined:
  "Fair_loadBalance this now r [] [] = Inr [None]"
  by (simp add: removeInactivePartitionOwnerships_def Fair_loadBalance_def Map_size_def
      Array_get_def)

text \<open>
  C7 (self-registration): in a call that is not a bootstrap call and in which no active
  record belongs to the caller, the caller is counted among the owners: with \<open>n\<close>
  distinct active owners the owner map has \<open>n + 1\<close> keys, and \<^verbatim>\<open>loadBalance\<close>
  returns what the balance check, the should-own-more check and the choice of the
  partition yield for the targets \<open>P div (n + 1)\<close> and \<open>P mod (n + 1)\<close>. In
  particular it returns the empty list exactly when \<open>P div (n + 1) = 0\<close>. Consequently,
  when a single other owner actively owns every one of \<open>P \<ge> 2\<close> candidates,
  \<open>C = n + 1 = 2\<close> and the call returns one partition id, that of an active record of
  the other owner (a steal).
\<close>

theorem self_registration_and_steal:
  assumes a: "a = removeInactivePartitionOwnerships this now ledger" "a \<noteq> []"
    and none: "\<forall>e \<in> set a. ownerId (snd e) \<noteq> Some (this_ownerId this)"
  shows "Map_size (ownerPartitionMapOf this a) = card (ownerId ` snd ` set a) + 1 \<and>
         Fair_loadBalance this now r ledger cands =
           balanceAndClaim this r a cands (ownerPartitionMapOf this a)
             (length cands div (card (ownerId ` snd ` set a) + 1))
             (length cands mod (card (ownerId ` snd ` set a) + 1)) \<and>
         (Fair_loadBalance this now r ledger cands = Inr [] \<longleftrightarrow>
            length cands div (card (ownerId ` snd ` set a) + 1) = 0) \<and>
         ((\<forall>e \<in> set a. ownerId (snd e) = Some other) \<and> (\<forall>p \<in> set cands. Map_has a p) \<and>
          2 \<le> length cands \<longrightarrow>
          card (ownerId ` snd ` set a) + 1 = 2 \<and>
          (\<exists>e \<in> set a. ownerId (snd e) = Some other \<and>
             Fair_loadBalance this now r ledger cands = Inr [Some (partitionId (snd e))]))"
proof -
  have notin: "Some (this_ownerId this) \<notin> ownerId ` snd ` set a" using none by auto
  have C: "Map_size (ownerPartitionMapOf this a) = card (ownerId ` snd ` set a) + 1"
    by (rule opm_size_self_absent[OF notin])
  have steps: "Fair_loadBalance this now r ledger cands =
           balanceAndClaim this r a cands (ownerPartitionMapOf this a)
             (length cands div (card (ownerId ` snd ` set a) + 1))
             (length cands mod (card (ownerId ` snd ` set a) + 1))"
    using Fair_loadBalance_steps[OF a, of r cands] unfolding C .
  note iff = nothing_owned_empty_iff[OF a none, of r cands]
  note steal = single_other_owner_steal[OF a none, of other cands r]
  show ?thesis using C steps iff steal by blast
qed

theorem self_registration_and_steal_witness:
  "Fair_loadBalance (FairPartitionLoadBalancer_new ''A'' 30) 100 0
     [mkOwnership ''0'' ''B'' 90] [''0''] = Inr [] \<and>
   (\<exists>e \<in> set [mkOwnership ''0'' ''B'' 90, mkOwnership ''1'' ''B'' 90].
      ownerId (snd e) = Some ''B'' \<and>
      Fair_loadBalance (FairPartitionLoadBalancer_new ''A'' 30) 100 0
        [mkOwnership ''0'' ''B'' 90, mkOwnership ''1'' ''B'' 90] [''0'', ''1'']
      = Inr [Some (partitionId (snd e))])"
proof -
  let ?lb = "FairPartitionLoadBalancer_new ''A'' 30"
  let ?one = "[mkOwnership ''0'' ''B'' 90]"
  let ?ledger = "[mkOwnership ''0'' ''B'' 90, mkOwnership ''1'' ''B'' 90]"
  have g1: "?one = removeInactivePartitionOwnerships ?lb 100 ?one" by code_simp
  have g2: "?one \<noteq> []" by simp
  have g3: "\<forall>e \<in> set ?one. ownerId (snd e) \<noteq> Some (this_ownerId ?lb)"
    by (simp add: mkOwnership_def FairPartitionLoadBalancer_new_def)
  have g4: "length [''0''] div (card (ownerId ` snd ` set ?one) + 1) = 0"
    by (simp add: mkOwnership_def)
  have first: "Fair_loadBalance ?lb 100 0 ?one [''0''] = Inr []"
    using self_registration_and_steal[OF g1 g2 g3, where cands = "[''0'']" and r = 0] g4 by blast
  have h1: "?ledger = removeInactivePartitionOwnerships ?lb 100 ?ledger" by code_simp
  have h2: "?ledger \<noteq> []" by simp
  have h3: "\<forall>e \<in> set ?ledger. ownerId (snd e) \<noteq> Some (this_ownerId ?lb)"
    by (simp add: mkOwnership_def FairPartitionLoadBalancer_new_def)
  have h4: "(\<forall>e \<in> set ?ledger. ownerId (snd e) = Some ''B'') \<and>
            (\<forall>p \<in> set [''0'', ''1'']. Map_has ?ledger p) \<and> 2 \<le> length [''0'', ''1'']"
    by (simp add: mkOwnership_def Map_has_def)
  from self_registration_and_steal[OF h1 h2 h3, where other = "''B''" and cands = "[''0'', ''1'']" and r = 0] h4
  have "\<exists>e \<in> set ?ledger. ownerId (snd e) = Some ''B'' \<and>
      Fair_loadBalance ?lb 100 0 ?ledger [''0'', ''1''] = Inr [Some (partitionId (snd e))]"
    by blast
  then show ?thesis using first by blast
qed

text \<open>
  C8 (greedy pin filter): \<^verbatim>\<open>GreedyPartitionLoadBalancer.loadBalance\<close> returns the
  candidates that are watched (all of them when no list was given to the constructor)
  and are not keys of the ledger, in the order of the candidate list; the two examples of
  the specification.
\<close>

theorem Greedy_loadBalance_filter:
  "Greedy_loadBalance (GreedyPartitionLoadBalancer_new watched) ledger cands =
     filter (\<lambda>p. (case watched of None \<Rightarrow> True | Some ids \<Rightarrow> p \<in> set ids) \<and>
                 p \<notin> fst ` set ledger) cands
   \<and> Greedy_loadBalance (GreedyPartitionLoadBalancer_new (Some [''0'', ''2'']))
        [] [''0'', ''1'', ''2'', ''3''] = [''0'', ''2'']
   \<and> Greedy_loadBalance (GreedyPartitionLoadBalancer_new (Some [''0'', ''2'']))
        [(''0'', po)] [''0'', ''1'', ''2'', ''3''] = [''2'']"
  by (auto simp: Greedy_loadBalance_def GreedyPartitionLoadBalancer_new_def Map_has_iff
      split: option.splits)

text \<open>
  C9 (no throw, every access in range): \<^verbatim>\<open>loadBalance\<close> never throws
  (\<open>loadBalance_never_throws\<close>), a record with a missing field is inactive
  (\<open>malformed_record_inactive\<close>), the list selected for stealing is never empty
  (\<open>steal_target_nonempty\<close>), and the bootstrap index is in range for a non-empty
  candidate list (\<open>bootstrap_index_in_range\<close>). With no candidate and no active
  record the bootstrap index is \<open>0\<close>, which is not an index of the empty candidate
  list, and the read yields \<^verbatim>\<open>undefined\<close>.
\<close>

theorem bootstrap_index_out_of_range:
  "Fair_loadBalance this now r [] ([]::string list)
     = Inr [Array_get ([]::string list) (randomIndex r (length ([]::string list)))] \<and>
   \<not> randomIndex r (length ([]::string list)) < length ([]::string list) \<and>
   Array_get ([]::string list) (randomIndex r (length ([]::string list))) = None"
  by (simp add: removeInactivePartitionOwnerships_def Fair_loadBalance_def Map_size_def
      Array_get_def)

text \<open>
  C10 (the steal never targets the caller): the candidate ids are the partition ids of
  the hub, pairwise distinct. A call that reaches the steal branch (active view not
  empty, not balanced, the caller should own more, every candidate actively owned) has
  the caller's active count strictly below \<open>P div C\<close>, the selected list holds at
  least \<open>ceil(P/C)\<close> records, and the returned id is the partition id of an active
  record whose owner is not the caller; when every ledger entry is stored under its own
  partition id, that record is the active entry of the returned id.
\<close>

theorem steal_from_other_owner:
  assumes dc: "distinct cands"
    and a: "a = removeInactivePartitionOwnerships this now ledger" "a \<noteq> []"
    and opm: "opm = ownerPartitionMapOf this a"
    and nb: "\<not> isLoadBalanced (length cands div Map_size opm) (length cands mod Map_size opm) opm"
    and so: "shouldOwnMorePartitions this (length cands div Map_size opm) cands opm = Inr True"
    and owned: "\<forall>p \<in> set cands. Map_has a p"
  shows "length (ownedBy (this_ownerId this) a) < length cands div Map_size opm \<and>
         (length cands + Map_size opm - 1) div Map_size opm
           \<le> length (findPartitionToSteal_maxList opm) \<and>
         (\<exists>e \<in> set a. ownerId (snd e) \<noteq> Some (this_ownerId this) \<and>
            Fair_loadBalance this now r ledger cands = Inr [Some (partitionId (snd e))] \<and>
            ((\<forall>e' \<in> set ledger. partitionId (snd e') = fst e') \<longrightarrow>
               Map_get a (partitionId (snd e)) = Some (snd e)))"
proof -
  let ?P = "length cands" and ?C = "Map_size opm"
  let ?own = "ownedBy (this_ownerId this) a"
  let ?ml = "findPartitionToSteal_maxList opm"
  have Cpos: "0 < ?C" unfolding opm by (rule opm_size_pos)
  have PA: "?P \<le> length a" by (rule candidates_le_active[OF dc owned])
  have AM: "length a \<le> ?C * length ?ml" unfolding opm by (rule length_active_le_size_times_max)
  have so': "length ?own < ?P div ?C \<or> (length a < ?P \<and> length ?own < ?P div ?C + 1)"
    using so unfolding opm shouldOwnMore_eq by simp
  then have own: "length ?own < ?P div ?C" using PA by simp
  have PM: "?P \<le> ?C * length ?ml" using PA AM by simp
  have ceil: "(?P + ?C - 1) div ?C \<le> length ?ml"
  proof -
    have "?P + ?C - 1 < ?C * (length ?ml + 1)" using PM Cpos by simp
    then have "(?P + ?C - 1) div ?C < length ?ml + 1"
      using Cpos by (simp add: less_mult_imp_div_less mult.commute)
    then show ?thesis by simp
  qed
  have "?P div ?C \<le> (?C * length ?ml) div ?C" using PM by (rule div_le_mono)
  then have "?P div ?C \<le> length ?ml" using Cpos by simp
  then have lt: "length ?own < length ?ml" using own by simp
  have un: "filter (\<lambda>pid. \<not> Map_has a pid) cands = []"
    using owned by (simp add: filter_empty_conv)
  from loadBalance_steal[OF a(1)[symmetric] a(2) opm nb so' un, of r]
  obtain po where po: "po \<in> set ?ml"
    "Fair_loadBalance this now r ledger cands = Inr [Some (partitionId po)]" by blast
  have "?ml \<noteq> []" using po(1) by auto
  then have "?ml \<in> set (Map_values opm)" using maxList_props[of opm] by blast
  then obtain k where k: "?ml = filter (\<lambda>po. ownerId po = k) (map snd a)"
    unfolding opm opm_values by blast
  have "k \<noteq> Some (this_ownerId this)"
  proof
    assume "k = Some (this_ownerId this)"
    then have "?ml = ?own" using k by (simp add: ownedBy_def Map_values_def)
    then show False using lt by simp
  qed
  moreover have "ownerId po = k" "po \<in> snd ` set a" using po(1) k by auto
  ultimately obtain e where e: "e \<in> set a" "snd e = po" "ownerId (snd e) \<noteq> Some (this_ownerId this)"
    by auto
  have "Map_get a (partitionId (snd e)) = Some (snd e)"
    if wf: "\<forall>e' \<in> set ledger. partitionId (snd e') = fst e'"
  proof -
    have "e \<in> set ledger" using e(1) removeInactive_set[of e this now ledger] a(1) by simp
    then have "partitionId (snd e) = fst e" using wf by blast
    moreover have "map_of a (fst e) = Some (snd e)"
      using distinct_removeInactive[of this now ledger] e(1) a(1) by simp
    ultimately show ?thesis by (simp add: Map_get_def)
  qed
  then show ?thesis using own ceil e po(2) by blast
qed

theorem steal_from_other_owner_witness:
  "length (ownedBy ''A'' [mkOwnership ''0'' ''B'' 90, mkOwnership ''1'' ''B'' 90, mkOwnership ''2'' ''B'' 90])
     < 3 div 2 \<and>
   (\<exists>e \<in> set [mkOwnership ''0'' ''B'' 90, mkOwnership ''1'' ''B'' 90, mkOwnership ''2'' ''B'' 90].
      ownerId (snd e) \<noteq> Some ''A'' \<and>
      Fair_loadBalance (FairPartitionLoadBalancer_new ''A'' 30) 100 0
        [mkOwnership ''0'' ''B'' 90, mkOwnership ''1'' ''B'' 90, mkOwnership ''2'' ''B'' 90]
        [''0'', ''1'', ''2''] = Inr [Some (partitionId (snd e))])"
proof -
  let ?lb = "FairPartitionLoadBalancer_new ''A'' 30"
  let ?ledger = "[mkOwnership ''0'' ''B'' 90, mkOwnership ''1'' ''B'' 90, mkOwnership ''2'' ''B'' 90]"
  let ?cands = "[''0'', ''1'', ''2'']"
  let ?opm = "ownerPartitionMapOf ?lb ?ledger"
  have h0: "distinct ?cands" by simp
  have h1: "?ledger = removeInactivePartitionOwnerships ?lb 100 ?ledger" by code_simp
  have h2: "?ledger \<noteq> []" by simp
  have h3: "\<not> isLoadBalanced (length ?cands div Map_size ?opm) (length ?cands mod Map_size ?opm) ?opm"
    by code_simp
  have h4: "shouldOwnMorePartitions ?lb (length ?cands div Map_size ?opm) ?cands ?opm = Inr True"
    by code_simp
  have h5: "\<forall>p \<in> set ?cands. Map_has ?ledger p" by code_simp
  have s: "Map_size ?opm = 2" "this_ownerId ?lb = ''A''" by code_simp+
  from steal_from_other_owner[OF h0 h1 h2 refl h3 h4 h5, of 0]
  show ?thesis unfolding s by auto
qed

end
